theory Spec2Isabelle
  imports Main "HOL-Library.Word"
begin

unbundle bit_operations_syntax

section \<open>The frame streaming core of \<open>citra_qt/bootmanager.cpp\<close>\<close>

text \<open>
  The development embeds the functions \<open>socketSend\<close>, \<open>readConfirmation\<close>,
  \<open>squareDiff\<close>, \<open>copySquare\<close>, \<open>putSquare\<close>, \<open>imageDiff\<close> and
  \<open>GRenderWindow::processFrameData\<close>.

  A buffer (\<open>unsigned char *\<close>) is a list of bytes and a pointer into it is an offset
  of type \<open>nat\<close>. Reading or writing outside a buffer is undefined behaviour in C; in the
  model a read outside the list is an unspecified byte and a write outside the list is
  dropped. The theorems that depend on buffer contents therefore assume the buffer sizes the
  caller \<open>ConnectCTroll3D\<close> provides: frames of \<open>width * height * 3\<close> bytes, with
  \<open>width\<close> and \<open>height\<close> multiples of 8 (240 and 320).
\<close>

type_synonym byte = "8 word"

subsection \<open>Counted loops\<close>

text \<open>
  \<open>for_loop i bound step body s\<close> is \<open>for (; i < bound; i += step) s = body i s\<close>.
  Every such loop of the source has the constant step 1 or 8.
\<close>

function for_loop :: "nat \<Rightarrow> nat \<Rightarrow> nat \<Rightarrow> (nat \<Rightarrow> 'a \<Rightarrow> 'a) \<Rightarrow> 'a \<Rightarrow> 'a" where
  "for_loop i bound step body s =
     (if i < bound \<and> 0 < step then for_loop (i + step) bound step body (body i s) else s)"
  by pat_completeness auto
termination
  by (relation "measure (\<lambda>(i, bound, step, body, s). bound - i)") auto

declare for_loop.simps [simp del]

subsection \<open>\<open>squareDiff\<close>\<close>

definition MIN_SQDIFF :: int where
  "MIN_SQDIFF = 8 * 8 * 3"

text \<open>\<open>abs(ptr1[c] - ptr2[c])\<close>: both bytes are promoted to \<open>int\<close> before the subtraction.\<close>

definition chan_diff :: "byte list \<Rightarrow> nat \<Rightarrow> byte list \<Rightarrow> nat \<Rightarrow> int" where
  "chan_diff b1 p1 b2 p2 = \<bar>uint (b1 ! p1) - uint (b2 ! p2)\<bar>"

definition pixel_diff :: "byte list \<Rightarrow> nat \<Rightarrow> byte list \<Rightarrow> nat \<Rightarrow> int" where
  "pixel_diff b1 p1 b2 p2 =
     chan_diff b1 p1 b2 p2 + chan_diff b1 (p1 + 1) b2 (p2 + 1) + chan_diff b1 (p1 + 2) b2 (p2 + 2)"

text \<open>
  The scan state is \<open>(diff, ptr1, ptr2, seen)\<close>. \<open>seen\<close> is not a variable of the source:
  it counts the pixels whose differences have been added, so that the early \<open>return 1\<close>
  can be observed. The first argument is the number of iterations the loop has left.
  \<open>Inl seen\<close> is the early \<open>return 1\<close>; \<open>Inr st\<close> is the loop running to its end.
\<close>

fun squareDiff_cols ::
  "nat \<Rightarrow> byte list \<Rightarrow> byte list \<Rightarrow> int \<times> nat \<times> nat \<times> nat \<Rightarrow> nat + int \<times> nat \<times> nat \<times> nat" where
  "squareDiff_cols 0 b1 b2 st = Inr st"
| "squareDiff_cols (Suc n) b1 b2 (diff, p1, p2, seen) =
     (let diff' = diff + pixel_diff b1 p1 b2 p2 in
      if diff' > MIN_SQDIFF then Inl (Suc seen)
      else squareDiff_cols n b1 b2 (diff', p1 + 3, p2 + 3, Suc seen))"

fun squareDiff_rows ::
  "nat \<Rightarrow> byte list \<Rightarrow> byte list \<Rightarrow> nat \<Rightarrow> int \<times> nat \<times> nat \<times> nat \<Rightarrow> nat + int \<times> nat \<times> nat \<times> nat" where
  "squareDiff_rows 0 b1 b2 rowStride st = Inr st"
| "squareDiff_rows (Suc n) b1 b2 rowStride st =
     (case squareDiff_cols 8 b1 b2 st of
        Inl seen \<Rightarrow> Inl seen
      | Inr (diff, p1, p2, seen) \<Rightarrow>
          squareDiff_rows n b1 b2 rowStride (diff, p1 + rowStride - 8 * 3, p2 + rowStride - 8 * 3, seen))"

definition squareDiff_scan :: "byte list \<Rightarrow> nat \<Rightarrow> byte list \<Rightarrow> nat \<Rightarrow> nat \<Rightarrow> int \<times> nat" where
  "squareDiff_scan b1 ptr1 b2 ptr2 rowStride =
     (case squareDiff_rows 8 b1 b2 rowStride (0, ptr1, ptr2, 0) of
        Inl seen \<Rightarrow> (1, seen)
      | Inr (diff, p1, p2, seen) \<Rightarrow> (0, seen))"

definition squareDiff :: "byte list \<Rightarrow> nat \<Rightarrow> byte list \<Rightarrow> nat \<Rightarrow> nat \<Rightarrow> int" where
  "squareDiff b1 ptr1 b2 ptr2 rowStride = fst (squareDiff_scan b1 ptr1 b2 ptr2 rowStride)"

text \<open>
  The per-pixel differences of one block, in scan order: row \<open>i\<close> and column \<open>j\<close> of the
  block are at offset \<open>i * rowStride + 3 * j\<close> from the block's first byte.
\<close>

definition block_diffs :: "byte list \<Rightarrow> nat \<Rightarrow> byte list \<Rightarrow> nat \<Rightarrow> nat \<Rightarrow> int list" where
  "block_diffs b1 ptr1 b2 ptr2 rowStride =
     concat (map (\<lambda>i. map (\<lambda>j. pixel_diff b1 (ptr1 + i * rowStride + 3 * j)
                                          b2 (ptr2 + i * rowStride + 3 * j)) [0..<8]) [0..<8])"

text \<open>The sum after the first \<open>k\<close> pixels of the block.\<close>

definition running_sum :: "byte list \<Rightarrow> nat \<Rightarrow> byte list \<Rightarrow> nat \<Rightarrow> nat \<Rightarrow> nat \<Rightarrow> int" where
  "running_sum b1 ptr1 b2 ptr2 rowStride k = sum_list (take k (block_diffs b1 ptr1 b2 ptr2 rowStride))"

text \<open>
  The reference for the sum, stated on the bytes of the two buffers and not through the
  functions of the scan above. \<open>byte_distance a b\<close> is the distance between the values of two
  bytes. Pixel \<open>q\<close> of a block (\<open>q < 64\<close>, row by row) has its three channels at the offsets
  \<open>(q div 8) * rowStride + 3 * (q mod 8) + c\<close>, \<open>c < 3\<close>, from the first byte of the block;
  \<open>block_abs_sum ... k\<close> adds the distances of all channels of the first \<open>k\<close> pixels.
\<close>

definition byte_distance :: "byte \<Rightarrow> byte \<Rightarrow> int" where
  "byte_distance a b = (if unat a \<le> unat b then int (unat b - unat a) else int (unat a - unat b))"

definition block_abs_sum :: "byte list \<Rightarrow> nat \<Rightarrow> byte list \<Rightarrow> nat \<Rightarrow> nat \<Rightarrow> nat \<Rightarrow> int" where
  "block_abs_sum b1 ptr1 b2 ptr2 rowStride k =
     sum_list (map (\<lambda>q. sum_list (map (\<lambda>c.
         byte_distance (b1 ! (ptr1 + (q div 8) * rowStride + 3 * (q mod 8) + c))
                       (b2 ! (ptr2 + (q div 8) * rowStride + 3 * (q mod 8) + c))) [0..<3]))
       [0..<k])"

subsection \<open>\<open>copySquare\<close> and \<open>putSquare\<close>\<close>

text \<open>
  The destination (\<open>lastImage\<close> or \<open>diffBuf\<close>) and the source (the current frame) are
  different allocations, so the source is a list that the copy only reads. The loop state is
  \<open>(destination buffer, dst, src)\<close>.
\<close>

definition copy_pixel :: "byte list \<Rightarrow> byte list \<times> nat \<times> nat \<Rightarrow> byte list \<times> nat \<times> nat" where
  "copy_pixel srcb = (\<lambda>(dstb, dst, src).
     (dstb[dst := srcb ! src, dst + 1 := srcb ! (src + 1), dst + 2 := srcb ! (src + 2)],
      dst + 3, src + 3))"

definition copySquare :: "byte list \<Rightarrow> nat \<Rightarrow> byte list \<Rightarrow> nat \<Rightarrow> nat \<Rightarrow> byte list" where
  "copySquare dstb dst srcb src rowStride =
     fst (for_loop 0 8 1
            (\<lambda>i st. case for_loop 0 8 1 (\<lambda>j. copy_pixel srcb) st of
                       (b, d, s) \<Rightarrow> (b, d + rowStride - 8 * 3, s + rowStride - 8 * 3))
            (dstb, dst, src))"

definition putSquare :: "byte list \<Rightarrow> nat \<Rightarrow> byte list \<Rightarrow> nat \<Rightarrow> nat \<Rightarrow> byte list" where
  "putSquare dstb dst srcb src rowStride =
     fst (for_loop 0 8 1
            (\<lambda>i st. case for_loop 0 8 1 (\<lambda>j. copy_pixel srcb) st of
                       (b, d, s) \<Rightarrow> (b, d, s + rowStride - 8 * 3))
            (dstb, dst, src))"

subsection \<open>\<open>imageDiff\<close>\<close>

text \<open>
  The locals of \<open>imageDiff\<close> together with the three global buffers it writes:
  \<open>lastImage_m\<close>, \<open>diffBuf_m\<close> and \<open>diffMap_m\<close> are the contents of \<open>lastImage\<close>,
  \<open>diffBuf\<close> and \<open>diffMap\<close>. \<open>numSqDiff\<close> is an \<open>int16_t\<close> that counts blocks; it stays
  below 1201 for the 240x320 layout, so it is a \<open>nat\<close> here.
\<close>

record imageDiff_state =
  numSqDiff :: nat
  mapPos :: nat
  mapMask :: int
  lPtr :: nat
  cPtr :: nat
  lastImage_m :: "byte list"
  diffBuf_m :: "byte list"
  diffMap_m :: "byte list"

text \<open>The body of the inner loop: one 8x8 block.\<close>

definition imageDiff_block :: "byte list \<Rightarrow> nat \<Rightarrow> imageDiff_state \<Rightarrow> imageDiff_state" where
  "imageDiff_block currentImage rowStride st =
     (let sDiff = squareDiff (lastImage_m st) (lPtr st) currentImage (cPtr st) rowStride;
          st1 = (if sDiff \<noteq> 0 then
                   st\<lparr>diffMap_m := (diffMap_m st)[mapPos st :=
                                      word_of_int (uint (diffMap_m st ! mapPos st) OR mapMask st)],
                      lastImage_m := copySquare (lastImage_m st) (lPtr st) currentImage (cPtr st) rowStride,
                      diffBuf_m := putSquare (diffBuf_m st) (8 * 8 * 3 * numSqDiff st)
                                     currentImage (cPtr st) rowStride,
                      numSqDiff := numSqDiff st + 1\<rparr>
                 else
                   st\<lparr>diffMap_m := (diffMap_m st)[mapPos st :=
                                      word_of_int (uint (diffMap_m st ! mapPos st) AND NOT (mapMask st))]\<rparr>);
          st2 = (if mapMask st1 = 0x80 then st1\<lparr>mapMask := 0x01, mapPos := mapPos st1 + 1\<rparr>
                 else st1\<lparr>mapMask := push_bit 1 (mapMask st1)\<rparr>)
      in st2\<lparr>lPtr := lPtr st2 + 8 * 3, cPtr := cPtr st2 + 8 * 3\<rparr>)"

text \<open>The body of the outer loop: one row of blocks.\<close>

definition imageDiff_row :: "byte list \<Rightarrow> nat \<Rightarrow> nat \<Rightarrow> imageDiff_state \<Rightarrow> imageDiff_state" where
  "imageDiff_row currentImage width rowStride st =
     (let st' = for_loop 0 width 8 (\<lambda>j. imageDiff_block currentImage rowStride) st
      in st'\<lparr>lPtr := lPtr st' + 8 * rowStride - rowStride,
             cPtr := cPtr st' + 8 * rowStride - rowStride\<rparr>)"

text \<open>
  \<open>imageDiff prev dbuf dmap currentImage width height\<close> returns the count of dirty blocks
  and the new contents of \<open>lastImage\<close>, \<open>diffBuf\<close> and \<open>diffMap\<close>.
\<close>

definition imageDiff ::
  "byte list \<Rightarrow> byte list \<Rightarrow> byte list \<Rightarrow> byte list \<Rightarrow> nat \<Rightarrow> nat \<Rightarrow>
   nat \<times> byte list \<times> byte list \<times> byte list" where
  "imageDiff prev dbuf dmap currentImage width height =
     (let rowStride = width * 3;
          st = for_loop 0 height 8 (\<lambda>i. imageDiff_row currentImage width rowStride)
                 \<lparr>numSqDiff = 0, mapPos = 0, mapMask = 0x01, lPtr = 0, cPtr = 0,
                  lastImage_m = prev, diffBuf_m = dbuf, diffMap_m = dmap\<rparr>
      in (numSqDiff st, lastImage_m st, diffBuf_m st, diffMap_m st))"

subsection \<open>The socket\<close>

text \<open>
  \<open>QTcpSocket\<close> belongs to Qt. The model keeps what the code can observe or cause:
  whether the state is \<open>ConnectedState\<close>, the bytes written so far (\<open>wire\<close>), the number of
  \<open>connectToHost\<close> calls (\<open>attempts\<close>), and the received bytes not read yet (\<open>pending\<close>).
  What the network does during one call of \<open>processFrameData\<close> is an input of that call.
\<close>

record socket =
  connected :: bool
  wire :: "byte list"
  attempts :: nat
  pending :: "byte list"

record net_env =
  link_lost :: bool      \<comment> \<open>the connection was lost since the previous call\<close>
  connect_ok :: bool     \<comment> \<open>a connection attempt made in this call succeeds within its timeout\<close>
  incoming :: "byte list" \<comment> \<open>bytes of the peer that have arrived when the call polls\<close>

definition socketSend :: "socket \<Rightarrow> byte list \<Rightarrow> int \<times> socket" where
  "socketSend sk data =
     (if \<not> connected sk then (0, sk) else (1, sk\<lparr>wire := wire sk @ data\<rparr>))"

definition readConfirmation :: "net_env \<Rightarrow> socket \<Rightarrow> byte \<times> socket" where
  "readConfirmation env sk =
     (case pending sk @ incoming env of
        [] \<Rightarrow> (0, sk\<lparr>pending := []\<rparr>)
      | b # rest \<Rightarrow> (b, sk\<lparr>pending := rest\<rparr>))"

text \<open>
  \<open>socketSend(sock, (const char *)&v, 2)\<close> for a \<open>uint16_t v\<close> sends the two bytes of
  \<open>v\<close> in memory order, which is low byte first on the little-endian hosts the program runs on.
\<close>

definition le16 :: "16 word \<Rightarrow> byte list" where
  "le16 v = [ucast v, ucast (drop_bit 8 v)]"

subsection \<open>\<open>GRenderWindow::processFrameData\<close>\<close>

definition FM_NONE :: "16 word" where "FM_NONE = 0"
definition FM_FULL :: "16 word" where "FM_FULL = 1"
definition FM_DIFF :: "16 word" where "FM_DIFF = 2"
definition FM_CHECKER :: "16 word" where "FM_CHECKER = 3"
definition FM_CHECKER_COMPL :: "16 word" where "FM_CHECKER_COMPL = 4"

text \<open>
  The static locals of \<open>processFrameData\<close> and the globals \<open>lastImage\<close> (\<open>None\<close> is the
  null pointer), \<open>diffBuf\<close> and \<open>diffMap\<close>. \<open>forceFrameCount\<close> and \<open>checker\<close> are C
  \<open>int\<close>s: \<open>forceFrameCount\<close> is only added to when it is at most 100 and \<open>checker\<close> stays
  in \<open>{0, 1}\<close>, so neither overflows and both are \<open>int\<close> here. \<open>waitConnection\<close> is only
  decremented when it is not 0.
\<close>

record pfd_state =
  outBuf :: "byte list"
  outSize :: nat
  outDiffBuf :: "byte list"
  outDiffSize :: nat
  forceFrameCount :: int
  checker :: int
  lastFrameMode :: "16 word"
  sock :: socket
  waitConnection :: nat
  lastImage :: "byte list option"
  diffBuf :: "byte list"
  diffMap :: "byte list"

text \<open>
  The JPEG encoder \<open>jpegCompress\<close> is Qt's (\<open>QImage::save\<close>); it is a parameter
  \<open>jpeg data width height quality\<close> that returns the compressed bytes.
\<close>

type_synonym encoder = "byte list \<Rightarrow> nat \<Rightarrow> nat \<Rightarrow> nat \<Rightarrow> byte list"

text \<open>The start of every call: \<open>if (sock.state() != QAbstractSocket::ConnectedState) ...\<close>.\<close>

definition maintain_connection :: "net_env \<Rightarrow> pfd_state \<Rightarrow> pfd_state" where
  "maintain_connection env s =
     (let sk = (sock s)\<lparr>connected := connected (sock s) \<and> \<not> link_lost env\<rparr> in
      if \<not> connected sk then
        (if waitConnection s = 0 then
           s\<lparr>waitConnection := 300,
             sock := sk\<lparr>attempts := attempts sk + 1, connected := connect_ok env\<rparr>\<rparr>
         else s\<lparr>waitConnection := waitConnection s - 1, sock := sk\<rparr>)
      else s\<lparr>sock := sk\<rparr>)"

text \<open>
  Lines 606 to 620: the mode, the dirty count \<open>numSq\<close> and the state after the differencer.
  \<open>memcpy(lastImage, frameData, width * height * 3)\<close> copies the first
  \<open>width * height * 3\<close> bytes of the frame into the new buffer.
\<close>

definition select_frame_mode ::
  "nat \<Rightarrow> nat \<Rightarrow> byte list \<Rightarrow> pfd_state \<Rightarrow> 16 word \<times> nat \<times> pfd_state" where
  "select_frame_mode width height frameData s =
     (let frameMode = (if forceFrameCount s > 100 then FM_FULL
                       else if lastFrameMode s = FM_CHECKER then FM_CHECKER_COMPL
                       else FM_NONE)
      in case lastImage s of
           None \<Rightarrow> (FM_FULL, 0, s\<lparr>lastImage := Some (take (width * height * 3) frameData)\<rparr>)
         | Some prev \<Rightarrow>
             if frameMode \<noteq> FM_FULL \<and> frameMode \<noteq> FM_CHECKER_COMPL then
               (case imageDiff prev (diffBuf s) (diffMap s) frameData width height of
                  (numSq, prev', dbuf', dmap') \<Rightarrow>
                    (if numSq > ((240 div 8) * (320 div 8)) div 3 then FM_CHECKER
                     else if numSq > 0 then FM_DIFF
                     else FM_NONE,
                     numSq, s\<lparr>lastImage := Some prev', diffBuf := dbuf', diffMap := dmap'\<rparr>))
             else (frameMode, 0, s))"

text \<open>
  The sampling loop of the checker modes. The state is \<open>(bytes written to buf, in, skip)\<close>;
  \<open>out\<close> always points just after the bytes written, and for an even width the bytes
  written fill the \<open>width * height * 3 / 2\<close> bytes of \<open>buf\<close> exactly. \<open>lnot\<close> is C's
  \<open>!\<close> on an \<open>int\<close>.
\<close>

definition lnot :: "int \<Rightarrow> int" where
  "lnot x = (if x = 0 then 1 else 0)"

definition checker_pixel :: "byte list \<Rightarrow> byte list \<times> nat \<times> int \<Rightarrow> byte list \<times> nat \<times> int" where
  "checker_pixel frameData = (\<lambda>(buf, inp, skip).
     (if lnot skip \<noteq> 0
      then buf @ [frameData ! inp, frameData ! (inp + 1), frameData ! (inp + 2)] else buf,
      inp + 3, lnot skip))"

definition checker_sample :: "byte list \<Rightarrow> nat \<Rightarrow> nat \<Rightarrow> int \<Rightarrow> byte list" where
  "checker_sample frameData width height skip0 =
     fst (for_loop 0 height 1
            (\<lambda>j st. case for_loop 0 width 1 (\<lambda>i. checker_pixel frameData) st of
                       (buf, inp, skip) \<Rightarrow> (buf, inp, lnot skip))
            ([], 0, skip0))"

text \<open>
  Lines 623 to 670: the transmission for the selected mode and the counter updates.
  \<open>dataSize\<close> is a \<open>uint16_t\<close> assigned from the \<open>unsigned long\<close> size of the encoder's
  output, so it is that size modulo 65536, and \<open>socketSend(sock, jpgBuf, dataSize)\<close> sends
  the first \<open>dataSize\<close> bytes of the output. \<open>sizeof(diffMap)\<close> is 150.
\<close>

definition transmit ::
  "encoder \<Rightarrow> nat \<Rightarrow> nat \<Rightarrow> byte list \<Rightarrow> 16 word \<Rightarrow> nat \<Rightarrow> pfd_state \<Rightarrow> pfd_state" where
  "transmit jpeg width height frameData frameMode numSq s =
     (let s1 = (if frameMode = FM_NONE then
                  s\<lparr>sock := snd (socketSend (sock s) (le16 frameMode)),
                    forceFrameCount := forceFrameCount s + 1\<rparr>
                else s)
      in
      if frameMode = FM_FULL then
        (let jpgBuf = jpeg frameData width height 70;
             dataSize = (word_of_nat (length jpgBuf) :: 16 word);
             sk1 = snd (socketSend (sock s1) (le16 frameMode));
             sk2 = snd (socketSend sk1 (le16 dataSize));
             sk3 = snd (socketSend sk2 (take (unat dataSize) jpgBuf))
         in s1\<lparr>outBuf := jpgBuf, outSize := length jpgBuf, sock := sk3, forceFrameCount := 0\<rparr>)
      else if frameMode = FM_DIFF then
        (let jpgDiffBuf = jpeg (diffBuf s1) 8 (8 * numSq) 70;
             dataSize = (word_of_nat (length jpgDiffBuf) :: 16 word);
             sk1 = snd (socketSend (sock s1) (le16 frameMode));
             sk2 = snd (socketSend sk1 (le16 dataSize));
             sk3 = snd (socketSend sk2 (take 150 (diffMap s1)));
             sk4 = snd (socketSend sk3 (take (unat dataSize) jpgDiffBuf))
         in s1\<lparr>outDiffBuf := jpgDiffBuf, outDiffSize := length jpgDiffBuf, sock := sk4,
               forceFrameCount := forceFrameCount s1 + 5\<rparr>)
      else if frameMode = FM_CHECKER \<or> frameMode = FM_CHECKER_COMPL then
        (let buf = checker_sample frameData width height (checker s1);
             jpgBuf = jpeg buf (width div 2) height 70;
             dataType = (word_of_int (3 + checker s1) :: 16 word);
             dataSize = (word_of_nat (length jpgBuf) :: 16 word);
             sk1 = snd (socketSend (sock s1) (le16 dataType));
             sk2 = snd (socketSend sk1 (le16 dataSize));
             sk3 = snd (socketSend sk2 (take (unat dataSize) jpgBuf))
         in s1\<lparr>outBuf := jpgBuf, outSize := length jpgBuf, sock := sk3,
               checker := (checker s1 + 1) AND 1,
               forceFrameCount := forceFrameCount s1 + 3\<rparr>)
      else s1)"

text \<open>
  One call. \<open>frameData = None\<close> is the null pointer (poll only). The result is the
  acknowledgement byte and the new state.
\<close>

definition processFrameData ::
  "encoder \<Rightarrow> nat \<times> nat \<Rightarrow> net_env \<Rightarrow> byte list option \<Rightarrow> pfd_state \<Rightarrow> byte \<times> pfd_state" where
  "processFrameData jpeg layout env frameData s =
     (let s1 = maintain_connection env s in
      case frameData of
        None \<Rightarrow> (case readConfirmation env (sock s1) of (r, sk) \<Rightarrow> (r, s1\<lparr>sock := sk\<rparr>))
      | Some fd \<Rightarrow>
          (case layout of (width, height) \<Rightarrow>
           case select_frame_mode width height fd s1 of (frameMode, numSq, s2) \<Rightarrow>
             let s3 = s2\<lparr>lastFrameMode := frameMode\<rparr>;
                 s4 = transmit jpeg width height fd frameMode numSq s3
             in case readConfirmation env (sock s4) of (r, sk) \<Rightarrow> (r, s4\<lparr>sock := sk\<rparr>)))"

text \<open>The state before the first call: zero-initialised statics and globals.\<close>

definition initial_state :: pfd_state where
  "initial_state =
     \<lparr>outBuf = [], outSize = 0, outDiffBuf = [], outDiffSize = 0,
      forceFrameCount = 0, checker = 0, lastFrameMode = FM_NONE,
      sock = \<lparr>connected = False, wire = [], attempts = 0, pending = []\<rparr>,
      waitConnection = 0, lastImage = None,
      diffBuf = replicate (240 * 320 * 3) 0,
      diffMap = replicate (((240 div 8) * (320 div 8)) div 8) 0\<rparr>"

text \<open>\<open>ConnectCTroll3D\<close> fixes the layout: \<open>Layout::CustomFrameLayout(240, 320)\<close>.\<close>

definition ctroll_layout :: "nat \<times> nat" where
  "ctroll_layout = (240, 320)"

text \<open>
  A session: the calls of \<open>processFrameData\<close> in order, each with what the network does and
  the frame it is given. \<open>run\<close> is the state after the calls; \<open>run_modes\<close> lists the mode
  selected at each call that supplies a frame.
\<close>

fun run :: "encoder \<Rightarrow> nat \<times> nat \<Rightarrow> pfd_state \<Rightarrow> (net_env \<times> byte list option) list \<Rightarrow> pfd_state" where
  "run jpeg layout s [] = s"
| "run jpeg layout s ((env, fd) # calls) =
     run jpeg layout (snd (processFrameData jpeg layout env fd s)) calls"

fun run_modes ::
  "encoder \<Rightarrow> nat \<times> nat \<Rightarrow> pfd_state \<Rightarrow> (net_env \<times> byte list option) list \<Rightarrow> 16 word list" where
  "run_modes jpeg layout s [] = []"
| "run_modes jpeg layout s ((env, fd) # calls) =
     (let s' = snd (processFrameData jpeg layout env fd s) in
      case fd of
        None \<Rightarrow> run_modes jpeg layout s' calls
      | Some f \<Rightarrow> lastFrameMode s' # run_modes jpeg layout s' calls)"


subsection \<open>Auxiliary definitions for the proofs\<close>

text \<open>The same scan over a plain list of differences, used to reason about the loops.\<close>

fun scan_vals :: "int \<Rightarrow> nat \<Rightarrow> int list \<Rightarrow> nat + int \<times> nat" where
  "scan_vals diff seen [] = Inr (diff, seen)"
| "scan_vals diff seen (v # vs) =
     (if diff + v > MIN_SQDIFF then Inl (Suc seen) else scan_vals (diff + v) (Suc seen) vs)"

text \<open>
  The bytes of the pixel at byte offset \<open>q\<close>, and the positions the checker loop samples
  with phase \<open>c\<close>: in row \<open>j\<close> the columns \<open>i\<close> with \<open>c + j + i\<close> even, rows in order.
\<close>

definition pick :: "byte list \<Rightarrow> nat \<Rightarrow> byte list" where
  "pick frame q = [frame ! q, frame ! (q + 1), frame ! (q + 2)]"

definition sample_cols :: "nat \<Rightarrow> nat \<Rightarrow> nat \<Rightarrow> nat list" where
  "sample_cols c w j = filter (\<lambda>i. even (c + j + i)) [0..<w]"

definition sample_positions :: "nat \<Rightarrow> nat \<Rightarrow> nat \<Rightarrow> (nat \<times> nat) list" where
  "sample_positions c w h = concat (map (\<lambda>j. map (\<lambda>i. (j, i)) (sample_cols c w j)) [0..<h])"

text \<open>
  \<open>overwrite xs d ys\<close> is \<open>xs\<close> with \<open>ys\<close> written at offset \<open>d\<close>. \<open>row_bytes\<close> are the 24
  bytes of one row of a block and \<open>block_bytes\<close> the 192 bytes of a block, row by row.
  Block \<open>k\<close> (row-major) of a frame of width \<open>w\<close> starts at \<open>block_offset w k\<close>; it is
  dirty when \<open>squareDiff\<close> returns non-zero there. \<open>block_step\<close> is the body of the inner
  loop of \<open>imageDiff\<close> in terms of the block index; \<open>loop_view\<close> and \<open>at_block\<close> relate the
  loop state to it.
\<close>

definition overwrite :: "'a list \<Rightarrow> nat \<Rightarrow> 'a list \<Rightarrow> 'a list" where
  "overwrite xs d ys = take d xs @ ys @ drop (d + length ys) xs"

definition row_bytes :: "byte list \<Rightarrow> nat \<Rightarrow> byte list" where
  "row_bytes cur p = map (\<lambda>c. cur ! (p + c)) [0..<24]"

definition block_bytes :: "byte list \<Rightarrow> nat \<Rightarrow> nat \<Rightarrow> byte list" where
  "block_bytes cur rowStride p = concat (map (\<lambda>i. row_bytes cur (p + i * rowStride)) [0..<8])"

definition block_offset :: "nat \<Rightarrow> nat \<Rightarrow> nat" where
  "block_offset w k = (k div (w div 8)) * (8 * (w * 3)) + (k mod (w div 8)) * (8 * 3)"

definition dirty_block :: "byte list \<Rightarrow> byte list \<Rightarrow> nat \<Rightarrow> nat \<Rightarrow> bool" where
  "dirty_block prev cur w k \<longleftrightarrow>
     squareDiff prev (block_offset w k) cur (block_offset w k) (w * 3) \<noteq> 0"

definition block_step ::
  "byte list \<Rightarrow> nat \<Rightarrow> nat \<Rightarrow> nat \<times> byte list \<times> byte list \<times> byte list \<Rightarrow>
   nat \<times> byte list \<times> byte list \<times> byte list" where
  "block_step cur w k = (\<lambda>(n, L, D, M).
     if squareDiff L (block_offset w k) cur (block_offset w k) (w * 3) \<noteq> 0 then
       (n + 1, copySquare L (block_offset w k) cur (block_offset w k) (w * 3),
        putSquare D (8 * 8 * 3 * n) cur (block_offset w k) (w * 3),
        M[k div 8 := word_of_int (uint (M ! (k div 8)) OR 2 ^ (k mod 8))])
     else
       (n, L, D, M[k div 8 := word_of_int (uint (M ! (k div 8)) AND NOT (2 ^ (k mod 8)))]))"

definition loop_view :: "imageDiff_state \<Rightarrow> nat \<times> byte list \<times> byte list \<times> byte list" where
  "loop_view st = (numSqDiff st, lastImage_m st, diffBuf_m st, diffMap_m st)"

definition at_block :: "imageDiff_state \<Rightarrow> nat \<Rightarrow> nat \<Rightarrow> bool" where
  "at_block st k p \<longleftrightarrow>
     mapPos st = k div 8 \<and> mapMask st = 2 ^ (k mod 8) \<and> lPtr st = p \<and> cPtr st = p"

text \<open>
  \<open>in_block w k o\<close>: byte offset \<open>o\<close> lies in block \<open>k\<close>. \<open>dirty_list\<close> are the dirty blocks
  among the first \<open>m\<close>, in order, and \<open>packed\<close> their pixels one block after the other.
  \<open>diff_inv\<close> is the loop invariant of \<open>imageDiff\<close> after \<open>m\<close> blocks.
\<close>

definition in_block :: "nat \<Rightarrow> nat \<Rightarrow> nat \<Rightarrow> bool" where
  "in_block w k o' \<longleftrightarrow>
     (\<exists>i<8. block_offset w k + i * (w * 3) \<le> o' \<and> o' < block_offset w k + i * (w * 3) + 24)"

definition dirty_list :: "byte list \<Rightarrow> byte list \<Rightarrow> nat \<Rightarrow> nat \<Rightarrow> nat list" where
  "dirty_list prev cur w m = filter (dirty_block prev cur w) [0..<m]"

definition packed :: "byte list \<Rightarrow> nat \<Rightarrow> nat list \<Rightarrow> byte list" where
  "packed cur w ks = concat (map (\<lambda>k. block_bytes cur (w * 3) (block_offset w k)) ks)"

definition diff_inv ::
  "byte list \<Rightarrow> byte list \<Rightarrow> nat \<Rightarrow> byte list \<Rightarrow> byte list \<Rightarrow> nat \<Rightarrow>
   nat \<times> byte list \<times> byte list \<times> byte list \<Rightarrow> bool" where
  "diff_inv prev cur w D0 M0 m = (\<lambda>(n, L, D, M).
     n = length (dirty_list prev cur w m) \<and>
     length L = length prev \<and>
     (\<forall>o'<length prev. L ! o' =
        (if \<exists>k<m. dirty_block prev cur w k \<and> in_block w k o' then cur ! o' else prev ! o')) \<and>
     D = overwrite D0 0 (packed cur w (dirty_list prev cur w m)) \<and>
     length M = length M0 \<and>
     (\<forall>j<8 * length M0. bit (M ! (j div 8)) (j mod 8) =
        (if j < m then dirty_block prev cur w j else bit (M0 ! (j div 8)) (j mod 8))))"


definition black_frame :: "byte list" where
  "black_frame = replicate (240 * 320 * 3) 0"

definition quiet_env :: net_env where
  "quiet_env = \<lparr>link_lost = False, connect_ok = True, incoming = []\<rparr>"

definition sample_encoder :: encoder where
  "sample_encoder d w h q = take 16 d"

text \<open>
  Two more frames for the concrete sessions: \<open>white_frame\<close>, every byte 255, and
  \<open>spot_frame\<close>, black but for its first pixel.
\<close>

definition white_frame :: "byte list" where
  "white_frame = replicate (240 * 320 * 3) 255"

definition spot_frame :: "byte list" where
  "spot_frame = black_frame[0 := 255, 1 := 255, 2 := 255]"

text \<open>
  States of one concrete session on the 240x320 layout with \<open>quiet_env\<close>: after the first
  call (\<open>first_state\<close>), after 98 more calls with the same frame (\<open>settled_state\<close>), after a
  white frame then (\<open>checker_state\<close>) and after one more call (\<open>refreshed_state\<close>);
  \<open>early_checker_state\<close> is the white frame right after the first call. \<open>session_at\<close>
  collects what the steps of such a session keep.
\<close>

definition session_at :: "pfd_state \<Rightarrow> byte list \<Rightarrow> int \<Rightarrow> int \<Rightarrow> bool" where
  "session_at s f c k \<longleftrightarrow>
     lastImage s = Some f \<and> forceFrameCount s = c \<and> checker s = k \<and> connected (sock s) \<and>
     192 * (40 * 30) \<le> length (diffBuf s) \<and> length (diffMap s) = 150"

definition first_state :: pfd_state where
  "first_state =
     snd (processFrameData sample_encoder ctroll_layout quiet_env (Some black_frame) initial_state)"

definition settled_state :: pfd_state where
  "settled_state =
     run sample_encoder ctroll_layout first_state (replicate 98 (quiet_env, Some black_frame))"

definition checker_state :: pfd_state where
  "checker_state =
     snd (processFrameData sample_encoder ctroll_layout quiet_env (Some white_frame) settled_state)"

definition refreshed_state :: pfd_state where
  "refreshed_state =
     snd (processFrameData sample_encoder ctroll_layout quiet_env (Some white_frame) checker_state)"

definition early_checker_state :: pfd_state where
  "early_checker_state =
     snd (processFrameData sample_encoder ctroll_layout quiet_env (Some white_frame) first_state)"

text \<open>
  The session continued from \<open>refreshed_state\<close>, where \<open>checker\<close> is 1: 98 more unchanged
  frames, a black frame (a second \<open>CHECKER\<close>), and the forced \<open>FULL\<close> that follows it.
\<close>

definition resettled_state :: pfd_state where
  "resettled_state =
     run sample_encoder ctroll_layout refreshed_state (replicate 98 (quiet_env, Some white_frame))"

definition late_checker_state :: pfd_state where
  "late_checker_state =
     snd (processFrameData sample_encoder ctroll_layout quiet_env (Some black_frame) resettled_state)"

definition late_refreshed_state :: pfd_state where
  "late_refreshed_state =
     snd (processFrameData sample_encoder ctroll_layout quiet_env (Some black_frame) late_checker_state)"

text \<open>
  A variant of the session after \<open>checker_state\<close>: a call without a frame, the forced
  \<open>FULL\<close>, then a call without a frame and an unchanged frame (\<open>idle_calls\<close>).
\<close>

definition polled_checker_state :: pfd_state where
  "polled_checker_state = run sample_encoder ctroll_layout checker_state [(quiet_env, None)]"

definition polled_refreshed_state :: pfd_state where
  "polled_refreshed_state =
     snd (processFrameData sample_encoder ctroll_layout quiet_env (Some white_frame) polled_checker_state)"

definition idle_calls :: "(net_env \<times> byte list option) list" where
  "idle_calls = [(quiet_env, None), (quiet_env, Some white_frame)]"

definition idle_state :: pfd_state where
  "idle_state = run sample_encoder ctroll_layout polled_refreshed_state idle_calls"





text \<open>\<open>down_env\<close> is a network on which no connection attempt succeeds.\<close>

definition down_env :: net_env where
  "down_env = \<lparr>link_lost = False, connect_ok = False, incoming = []\<rparr>"

section \<open>Properties of \<open>squareDiff\<close>\<close>

lemma pixel_diff_nonneg: "0 \<le> pixel_diff b1 p1 b2 p2"
  by (simp add: pixel_diff_def chan_diff_def)

lemma scan_vals_append:
  "scan_vals d s (xs @ ys) =
     (case scan_vals d s xs of Inl k \<Rightarrow> Inl k | Inr (d', s') \<Rightarrow> scan_vals d' s' ys)"
  by (induction xs arbitrary: d s) auto

lemma squareDiff_cols_scan:
  "squareDiff_cols n b1 b2 (d, p1, p2, s) =
     (case scan_vals d s (map (\<lambda>j. pixel_diff b1 (p1 + 3 * j) b2 (p2 + 3 * j)) [0..<n]) of
        Inl k \<Rightarrow> Inl k
      | Inr (d', s') \<Rightarrow> Inr (d', p1 + 3 * n, p2 + 3 * n, s'))"
proof (induction n arbitrary: d p1 p2 s)
  case 0
  show ?case by simp
next
  case (Suc n)
  have shift: "map (\<lambda>j. pixel_diff b1 (p1 + 3 * j) b2 (p2 + 3 * j)) [0..<Suc n] =
      pixel_diff b1 p1 b2 p2 # map (\<lambda>j. pixel_diff b1 (p1 + 3 + 3 * j) b2 (p2 + 3 + 3 * j)) [0..<n]"
    by (simp add: upt_conv_Cons map_Suc_upt [symmetric] add.assoc del: upt_Suc)
  show ?case
    unfolding shift by (simp add: Suc.IH Let_def add.assoc split: sum.splits prod.splits)
qed

lemma squareDiff_rows_scan:
  "squareDiff_rows n b1 b2 rs (d, p1, p2, s) =
     (case scan_vals d s (concat (map (\<lambda>i. map (\<lambda>j. pixel_diff b1 (p1 + i * rs + 3 * j)
                                                      b2 (p2 + i * rs + 3 * j)) [0..<8]) [0..<n])) of
        Inl k \<Rightarrow> Inl k
      | Inr (d', s') \<Rightarrow> Inr (d', p1 + n * rs, p2 + n * rs, s'))"
proof (induction n arbitrary: d p1 p2 s)
  case 0
  show ?case by simp
next
  case (Suc n)
  have shift: "map (\<lambda>i. map (\<lambda>j. pixel_diff b1 (p1 + i * rs + 3 * j) b2 (p2 + i * rs + 3 * j)) [0..<8]) [0..<Suc n] =
      map (\<lambda>j. pixel_diff b1 (p1 + 3 * j) b2 (p2 + 3 * j)) [0..<8] #
      map (\<lambda>i. map (\<lambda>j. pixel_diff b1 (p1 + rs + i * rs + 3 * j) b2 (p2 + rs + i * rs + 3 * j)) [0..<8]) [0..<n]"
    by (simp add: upt_conv_Cons map_Suc_upt [symmetric] add.assoc del: upt_Suc)
  show ?case
    unfolding shift
    by (simp add: squareDiff_cols_scan scan_vals_append Suc.IH add.assoc
        split: sum.splits prod.splits)
qed

lemma scan_vals_Inr:
  "scan_vals d s vs = Inr (d', s') \<Longrightarrow>
     d' = d + sum_list vs \<and> s' = s + length vs \<and>
     (\<forall>m. 1 \<le> m \<and> m \<le> length vs \<longrightarrow> d + sum_list (take m vs) \<le> MIN_SQDIFF)"
proof (induction vs arbitrary: d s)
  case Nil
  then show ?case by simp
next
  case (Cons v vs)
  from Cons.prems have le: "d + v \<le> MIN_SQDIFF" and rest: "scan_vals (d + v) (Suc s) vs = Inr (d', s')"
    by (auto split: if_splits)
  from Cons.IH [OF rest] have ih: "d' = d + v + sum_list vs" "s' = Suc s + length vs"
    "\<And>m. 1 \<le> m \<Longrightarrow> m \<le> length vs \<Longrightarrow> d + v + sum_list (take m vs) \<le> MIN_SQDIFF"
    by auto
  have "d + sum_list (take m (v # vs)) \<le> MIN_SQDIFF" if "1 \<le> m" "m \<le> length (v # vs)" for m
  proof (cases m)
    case 0
    with that show ?thesis by simp
  next
    case (Suc k)
    show ?thesis
    proof (cases k)
      case 0
      with Suc le show ?thesis by simp
    next
      case (Suc k')
      with \<open>m = Suc k\<close> that ih(3) [of k] show ?thesis by (simp add: add.assoc)
    qed
  qed
  with ih show ?case by (simp add: add.assoc)
qed

lemma scan_vals_Inl:
  "scan_vals d s vs = Inl k \<Longrightarrow>
     s < k \<and> k \<le> s + length vs \<and> d + sum_list (take (k - s) vs) > MIN_SQDIFF \<and>
     (\<forall>m. 1 \<le> m \<and> m < k - s \<longrightarrow> d + sum_list (take m vs) \<le> MIN_SQDIFF)"
proof (induction vs arbitrary: d s)
  case Nil
  then show ?case by simp
next
  case (Cons v vs)
  show ?case
  proof (cases "d + v > MIN_SQDIFF")
    case True
    with Cons.prems have "k = Suc s" by simp
    with True show ?thesis by simp
  next
    case False
    with Cons.prems have rest: "scan_vals (d + v) (Suc s) vs = Inl k" by simp
    from Cons.IH [OF rest] have ih: "Suc s < k" "k \<le> Suc s + length vs"
      "d + v + sum_list (take (k - Suc s) vs) > MIN_SQDIFF"
      "\<And>m. 1 \<le> m \<Longrightarrow> m < k - Suc s \<Longrightarrow> d + v + sum_list (take m vs) \<le> MIN_SQDIFF"
      by auto
    from ih(1) obtain r where r: "k - s = Suc r" "k - Suc s = r"
      by (metis Suc_diff_Suc Suc_lessD diff_Suc_eq_diff_pred diff_Suc_1)
    have "d + sum_list (take m (v # vs)) \<le> MIN_SQDIFF" if "1 \<le> m" "m < k - s" for m
    proof (cases m)
      case 0
      with that show ?thesis by simp
    next
      case (Suc j)
      show ?thesis
      proof (cases j)
        case 0
        with Suc False show ?thesis by simp
      next
        case (Suc j')
        with \<open>m = Suc j\<close> that r ih(4) [of j] show ?thesis by (simp add: add.assoc)
      qed
    qed
    with ih r show ?thesis by (simp add: add.assoc)
  qed
qed

lemma length_block_diffs: "length (block_diffs b1 p1 b2 p2 rs) = 64"
  by (simp add: block_diffs_def length_concat comp_def sum_list_triv)

lemma block_diffs_nonneg: "v \<in> set (block_diffs b1 p1 b2 p2 rs) \<Longrightarrow> 0 \<le> v"
  by (auto simp: block_diffs_def pixel_diff_nonneg)

lemma sum_list_take_mono:
  assumes "\<And>v. v \<in> set vs \<Longrightarrow> (0::int) \<le> v"
  shows "sum_list (take k vs) \<le> sum_list vs"
proof -
  have "sum_list vs = sum_list (take k vs) + sum_list (drop k vs)"
    by (metis append_take_drop_id sum_list_append)
  moreover have "0 \<le> sum_list (drop k vs)"
    by (rule sum_list_nonneg) (use assms in \<open>auto dest: in_set_dropD\<close>)
  ultimately show ?thesis by simp
qed

lemma squareDiff_scan_cases:
  "squareDiff_scan b1 p1 b2 p2 rs =
     (case scan_vals 0 0 (block_diffs b1 p1 b2 p2 rs) of Inl k \<Rightarrow> (1, k) | Inr (d, k) \<Rightarrow> (0, k))"
  by (simp add: squareDiff_scan_def squareDiff_rows_scan block_diffs_def split: sum.splits prod.splits)

lemma squareDiff_running:
  assumes "squareDiff_scan b1 p1 b2 p2 rs = (r, n)"
  shows "squareDiff b1 p1 b2 p2 rs = r" and "r = 0 \<or> r = 1"
    and "r = 1 \<longleftrightarrow> running_sum b1 p1 b2 p2 rs 64 > 192"
    and "r = 1 \<Longrightarrow> 1 \<le> n \<and> n \<le> 64 \<and> running_sum b1 p1 b2 p2 rs n > 192"
    and "r = 1 \<Longrightarrow> m < n \<Longrightarrow> running_sum b1 p1 b2 p2 rs m \<le> 192"
    and "r = 0 \<Longrightarrow> n = 64"
    and "r = 0 \<Longrightarrow> k \<le> 64 \<Longrightarrow> running_sum b1 p1 b2 p2 rs k \<le> 192"
proof -
  let ?vs = "block_diffs b1 p1 b2 p2 rs"
  have T: "MIN_SQDIFF = 192" by (simp add: MIN_SQDIFF_def)
  have len: "length ?vs = 64" by (rule length_block_diffs)
  have mono: "running_sum b1 p1 b2 p2 rs k \<le> running_sum b1 p1 b2 p2 rs 64" for k
    unfolding running_sum_def using sum_list_take_mono [of ?vs k] block_diffs_nonneg len by auto
  have zero: "running_sum b1 p1 b2 p2 rs 0 = 0" by (simp add: running_sum_def)
  have all: "squareDiff b1 p1 b2 p2 rs = r \<and> (r = 0 \<or> r = 1) \<and>
      (r = 1 \<longleftrightarrow> running_sum b1 p1 b2 p2 rs 64 > 192) \<and>
      (r = 1 \<longrightarrow> 1 \<le> n \<and> n \<le> 64 \<and> running_sum b1 p1 b2 p2 rs n > 192 \<and>
                    (\<forall>m<n. running_sum b1 p1 b2 p2 rs m \<le> 192)) \<and>
      (r = 0 \<longrightarrow> n = 64 \<and> (\<forall>k\<le>64. running_sum b1 p1 b2 p2 rs k \<le> 192))"
  proof (cases "scan_vals 0 0 ?vs")
    case (Inl k)
    with assms have rn: "r = 1" "n = k" by (simp_all add: squareDiff_scan_cases)
    from scan_vals_Inl [OF Inl] have k: "0 < k" "k \<le> 64" "running_sum b1 p1 b2 p2 rs k > 192"
      and before: "\<And>m. 1 \<le> m \<Longrightarrow> m < k \<Longrightarrow> running_sum b1 p1 b2 p2 rs m \<le> 192"
      by (simp_all add: running_sum_def T len)
    have "running_sum b1 p1 b2 p2 rs m \<le> 192" if "m < k" for m
      using that before [of m] zero by (cases m) simp_all
    moreover have "running_sum b1 p1 b2 p2 rs 64 > 192"
      using k(3) mono [of k] by simp
    ultimately show ?thesis
      using rn k assms by (auto simp: squareDiff_def T)
  next
    case (Inr dk)
    obtain d k where dk: "dk = (d, k)" by (cases dk)
    with Inr assms have rn: "r = 0" "n = k" by (simp_all add: squareDiff_scan_cases)
    from scan_vals_Inr [OF Inr [unfolded dk]] have k: "k = 64"
      and all: "\<And>m. 1 \<le> m \<Longrightarrow> m \<le> 64 \<Longrightarrow> running_sum b1 p1 b2 p2 rs m \<le> 192"
      by (simp_all add: running_sum_def T len)
    have le: "running_sum b1 p1 b2 p2 rs m \<le> 192" if "m \<le> 64" for m
      using that all [of m] zero by (cases m) simp_all
    have "\<not> running_sum b1 p1 b2 p2 rs m > 192" if "m \<le> 64" for m
      using le [OF that] by simp
    with le show ?thesis
      using rn k assms by (auto simp: squareDiff_def T)
  qed
  show "squareDiff b1 p1 b2 p2 rs = r" using all by blast
  show "r = 0 \<or> r = 1" using all by blast
  show "r = 1 \<longleftrightarrow> running_sum b1 p1 b2 p2 rs 64 > 192" using all by blast
  show "1 \<le> n \<and> n \<le> 64 \<and> running_sum b1 p1 b2 p2 rs n > 192" if "r = 1"
    using all that by blast
  show "running_sum b1 p1 b2 p2 rs m \<le> 192" if "r = 1" "m < n"
    using all that by blast
  show "n = 64" if "r = 0" using all that by blast
  show "running_sum b1 p1 b2 p2 rs k \<le> 192" if "r = 0" "k \<le> 64"
    using all that by blast
qed

lemma concat_rows_index:
  "0 < n \<Longrightarrow>
   concat (map (\<lambda>i. map (f i) [0..<n]) [0..<m]) = map (\<lambda>q. f (q div n) (q mod n)) [0..<m * n]"
proof (induction m)
  case 0
  show ?case by simp
next
  case (Suc m)
  have "[0..<m * n + n] = [0..<m * n] @ [m * n..<m * n + n]"
    by (rule upt_add_eq_append) simp
  then have split: "[0..<Suc m * n] = [0..<m * n] @ [m * n..<m * n + n]"
    by (simp only: mult_Suc add.commute)
  have "[m * n..<n + m * n] = map (\<lambda>i. i + m * n) [0..<n]"
    by (rule map_add_upt [symmetric])
  then have "map (\<lambda>q. f (q div n) (q mod n)) [m * n..<n + m * n] =
      map (\<lambda>j. f ((j + m * n) div n) ((j + m * n) mod n)) [0..<n]"
    by (simp only: map_map comp_def)
  also have "\<dots> = map (f m) [0..<n]"
    using Suc.prems by (intro map_cong refl) simp
  finally have last: "map (\<lambda>q. f (q div n) (q mod n)) [m * n..<m * n + n] = map (f m) [0..<n]"
    by (simp only: add.commute)
  have "concat (map (\<lambda>i. map (f i) [0..<n]) [0..<Suc m]) =
     concat (map (\<lambda>i. map (f i) [0..<n]) [0..<m]) @ map (f m) [0..<n]"
    by simp
  then show ?case
    unfolding split map_append last Suc.IH [OF Suc.prems] .
qed

lemma abs_int_diff: "\<bar>int x - int y\<bar> = (if x \<le> y then int (y - x) else int (x - y))"
  by (cases "x \<le> y") (simp_all add: of_nat_diff)

lemma chan_diff_distance: "chan_diff b1 p1 b2 p2 = byte_distance (b1 ! p1) (b2 ! p2)"
  unfolding chan_diff_def byte_distance_def uint_nat by (rule abs_int_diff)

lemma upt_3: "[0..<3] = [0, 1, 2]"
  by (simp add: upt_conv_Cons)

lemma pixel_diff_distance:
  "pixel_diff b1 p1 b2 p2 =
     sum_list (map (\<lambda>c. byte_distance (b1 ! (p1 + c)) (b2 ! (p2 + c))) [0..<3])"
  unfolding upt_3 by (simp add: pixel_diff_def chan_diff_distance)

lemma block_diffs_index:
  "block_diffs b1 p1 b2 p2 rs =
     map (\<lambda>q. pixel_diff b1 (p1 + (q div 8) * rs + 3 * (q mod 8))
                          b2 (p2 + (q div 8) * rs + 3 * (q mod 8))) [0..<8 * 8]"
  unfolding block_diffs_def
  by (rule concat_rows_index [where n = 8 and m = 8
        and f = "\<lambda>i j. pixel_diff b1 (p1 + i * rs + 3 * j) b2 (p2 + i * rs + 3 * j)"]) simp

lemma running_sum_abs:
  assumes "k \<le> 64"
  shows "running_sum b1 p1 b2 p2 rs k = block_abs_sum b1 p1 b2 p2 rs k"
proof -
  from assms have t: "take k [0..<8 * 8] = [0..<k]" by (simp add: take_upt)
  show ?thesis
    unfolding running_sum_def block_abs_sum_def block_diffs_index take_map t pixel_diff_distance ..
qed

text \<open>
  C3. For a pair of corresponding 8x8 blocks, \<open>squareDiff\<close> adds the absolute differences
  of the three channels pixel by pixel and returns 1 (dirty) exactly when the running sum
  exceeds \<open>3 * 64 = 192\<close>; it returns at the first pixel where the running sum exceeds the
  threshold (\<open>n\<close> pixels were scanned, the sum after \<open>n\<close> pixels exceeds 192 and no earlier
  sum does), and a block whose sum never exceeds 192 is scanned completely (64 pixels) and
  reported clean (0). The sums are those of \<open>block_abs_sum\<close>: the distances of the byte values
  of all three channels of the pixels scanned so far.
\<close>

theorem squareDiff_threshold:
  assumes "squareDiff_scan b1 p1 b2 p2 rs = (r, n)"
  shows "squareDiff b1 p1 b2 p2 rs = r \<and> (r = 0 \<or> r = 1) \<and>
         MIN_SQDIFF = 3 * 64 \<and>
         (r = 1 \<longleftrightarrow> (\<exists>k\<le>64. block_abs_sum b1 p1 b2 p2 rs k > 192)) \<and>
         (r = 1 \<longleftrightarrow> block_abs_sum b1 p1 b2 p2 rs 64 > 192) \<and>
         (r = 1 \<longrightarrow> 1 \<le> n \<and> n \<le> 64 \<and> block_abs_sum b1 p1 b2 p2 rs n > 192 \<and>
                    (\<forall>m<n. block_abs_sum b1 p1 b2 p2 rs m \<le> 192)) \<and>
         (r = 0 \<longrightarrow> n = 64 \<and> (\<forall>k\<le>64. block_abs_sum b1 p1 b2 p2 rs k \<le> 192))"
proof -
  note R = squareDiff_running [OF assms]
  have T: "MIN_SQDIFF = 3 * 64" by (simp add: MIN_SQDIFF_def)
  have total: "r = 1 \<longleftrightarrow> block_abs_sum b1 p1 b2 p2 rs 64 > 192"
    using R(3) by (simp add: running_sum_abs)
  have dirty: "1 \<le> n \<and> n \<le> 64 \<and> block_abs_sum b1 p1 b2 p2 rs n > 192 \<and>
      (\<forall>m<n. block_abs_sum b1 p1 b2 p2 rs m \<le> 192)" if r: "r = 1"
  proof -
    from R(4) [OF r] have n: "1 \<le> n" "n \<le> 64" "running_sum b1 p1 b2 p2 rs n > 192" by simp_all
    have "block_abs_sum b1 p1 b2 p2 rs m \<le> 192" if "m < n" for m
    proof -
      from that n(2) have m: "m \<le> 64" by simp
      from R(5) [OF r that] show ?thesis by (simp add: running_sum_abs [OF m])
    qed
    with n show ?thesis by (simp add: running_sum_abs)
  qed
  have clean: "n = 64 \<and> (\<forall>k\<le>64. block_abs_sum b1 p1 b2 p2 rs k \<le> 192)" if r: "r = 0"
  proof -
    have "block_abs_sum b1 p1 b2 p2 rs k \<le> 192" if "k \<le> 64" for k
      using R(7) [OF r that] by (simp add: running_sum_abs [OF that])
    with R(6) [OF r] show ?thesis by simp
  qed
  have some: "r = 1 \<longleftrightarrow> (\<exists>k\<le>64. block_abs_sum b1 p1 b2 p2 rs k > 192)"
  proof
    assume "r = 1"
    with total show "\<exists>k\<le>64. block_abs_sum b1 p1 b2 p2 rs k > 192" by auto
  next
    assume "\<exists>k\<le>64. block_abs_sum b1 p1 b2 p2 rs k > 192"
    then obtain k where k: "k \<le> 64" "block_abs_sum b1 p1 b2 p2 rs k > 192" by blast
    show "r = 1"
    proof (rule ccontr)
      assume "r \<noteq> 1"
      with R(2) have "r = 0" by simp
      from clean [OF this] k show False by auto
    qed
  qed
  from R(1,2) T some total dirty clean show ?thesis by blast
qed

text \<open>
  Two blocks against a black one. With the pixel \<open>(7, 0, 1)\<close> everywhere the sum grows by 8
  per pixel: it is 192 after 24 pixels and 200 after 25, where the scan stops. With the pixel
  \<open>(2, 0, 1)\<close> everywhere the sum is exactly 192 after all 64 pixels, which does not exceed
  the threshold.
\<close>

theorem squareDiff_threshold_witness:
  "squareDiff_scan (replicate 192 0) 0 (concat (replicate 64 [7, 0, 1])) 0 24 = (1, 25) \<and>
   squareDiff (replicate 192 0) 0 (concat (replicate 64 [7, 0, 1])) 0 24 = 1 \<and>
   block_abs_sum (replicate 192 0) 0 (concat (replicate 64 [7, 0, 1])) 0 24 25 > 192 \<and>
   block_abs_sum (replicate 192 0) 0 (concat (replicate 64 [7, 0, 1])) 0 24 24 \<le> 192 \<and>
   block_abs_sum (replicate 192 0) 0 (concat (replicate 64 [7, 0, 1])) 0 24 25 = 200 \<and>
   block_abs_sum (replicate 192 0) 0 (concat (replicate 64 [7, 0, 1])) 0 24 24 = 192 \<and>
   squareDiff_scan (replicate 192 0) 0 (concat (replicate 64 [2, 0, 1])) 0 24 = (0, 64) \<and>
   squareDiff (replicate 192 0) 0 (concat (replicate 64 [2, 0, 1])) 0 24 = 0 \<and>
   block_abs_sum (replicate 192 0) 0 (concat (replicate 64 [2, 0, 1])) 0 24 64 \<le> 192 \<and>
   block_abs_sum (replicate 192 0) 0 (concat (replicate 64 [2, 0, 1])) 0 24 64 = 192"
proof -
  have dirty: "squareDiff_scan (replicate 192 0) 0 (concat (replicate 64 [7, 0, 1])) 0 24 = (1, 25)"
    by code_simp
  have clean: "squareDiff_scan (replicate 192 0) 0 (concat (replicate 64 [2, 0, 1])) 0 24 = (0, 64)"
    by code_simp
  have sums:
    "block_abs_sum (replicate 192 0) 0 (concat (replicate 64 [7, 0, 1])) 0 24 25 = 200"
    "block_abs_sum (replicate 192 0) 0 (concat (replicate 64 [7, 0, 1])) 0 24 24 = 192"
    "block_abs_sum (replicate 192 0) 0 (concat (replicate 64 [2, 0, 1])) 0 24 64 = 192"
    by code_simp+
  have d: "squareDiff (replicate 192 0) 0 (concat (replicate 64 [7, 0, 1])) 0 24 = 1 \<and>
      block_abs_sum (replicate 192 0) 0 (concat (replicate 64 [7, 0, 1])) 0 24 25 > 192 \<and>
      block_abs_sum (replicate 192 0) 0 (concat (replicate 64 [7, 0, 1])) 0 24 24 \<le> 192"
    using squareDiff_threshold [OF dirty] by (auto simp: MIN_SQDIFF_def)
  have c: "squareDiff (replicate 192 0) 0 (concat (replicate 64 [2, 0, 1])) 0 24 = 0 \<and>
      block_abs_sum (replicate 192 0) 0 (concat (replicate 64 [2, 0, 1])) 0 24 64 \<le> 192"
    using squareDiff_threshold [OF clean] by (auto simp: MIN_SQDIFF_def)
  from dirty clean sums d c show ?thesis by (intro conjI) simp_all
qed

section \<open>The steps of \<open>processFrameData\<close>\<close>

lemma modes_distinct:
  "FM_NONE \<noteq> FM_FULL" "FM_NONE \<noteq> FM_DIFF" "FM_NONE \<noteq> FM_CHECKER" "FM_NONE \<noteq> FM_CHECKER_COMPL"
  "FM_FULL \<noteq> FM_DIFF" "FM_FULL \<noteq> FM_CHECKER" "FM_FULL \<noteq> FM_CHECKER_COMPL"
  "FM_DIFF \<noteq> FM_CHECKER" "FM_DIFF \<noteq> FM_CHECKER_COMPL" "FM_CHECKER \<noteq> FM_CHECKER_COMPL"
  by (simp_all add: FM_NONE_def FM_FULL_def FM_DIFF_def FM_CHECKER_def FM_CHECKER_COMPL_def)

lemmas modes_neq = modes_distinct modes_distinct [symmetric]

lemma maintain_connection_keeps:
  "forceFrameCount (maintain_connection env s) = forceFrameCount s"
  "checker (maintain_connection env s) = checker s"
  "lastFrameMode (maintain_connection env s) = lastFrameMode s"
  "lastImage (maintain_connection env s) = lastImage s"
  "diffBuf (maintain_connection env s) = diffBuf s"
  "diffMap (maintain_connection env s) = diffMap s"
  "outBuf (maintain_connection env s) = outBuf s"
  "outDiffBuf (maintain_connection env s) = outDiffBuf s"
  "wire (sock (maintain_connection env s)) = wire (sock s)"
  "pending (sock (maintain_connection env s)) = pending (sock s)"
  by (simp_all add: maintain_connection_def Let_def)

lemma select_frame_mode_keeps:
  assumes "select_frame_mode w h fd s = (m, n, s2)"
  shows "forceFrameCount s2 = forceFrameCount s" "checker s2 = checker s"
    "lastFrameMode s2 = lastFrameMode s" "sock s2 = sock s" "waitConnection s2 = waitConnection s"
    "outBuf s2 = outBuf s" "outDiffBuf s2 = outDiffBuf s"
  using assms
  by (auto simp: select_frame_mode_def Let_def split: option.splits if_splits prod.splits)

lemma socketSend_wire:
  "wire (snd (socketSend sk d)) = (if connected sk then wire sk @ d else wire sk)"
  "connected (snd (socketSend sk d)) = connected sk"
  "attempts (snd (socketSend sk d)) = attempts sk"
  "pending (snd (socketSend sk d)) = pending sk"
  by (simp_all add: socketSend_def)

lemma le16_bytes:
  "le16 (word_of_nat n) = [word_of_nat (n mod 256), word_of_nat (n div 256 mod 256)]"
proof -
  have lo: "(ucast (word_of_nat n :: 16 word) :: byte) = word_of_nat (n mod 256)"
    by (rule bit_word_eqI) (auto simp: bit_simps bit_of_nat_iff bit_take_bit_iff take_bit_eq_mod [symmetric, where n = 8, simplified])
  have hi: "(ucast (drop_bit 8 (word_of_nat n :: 16 word)) :: byte) = word_of_nat (n div 256 mod 256)"
    by (rule bit_word_eqI) (auto simp: bit_simps bit_of_nat_iff bit_take_bit_iff bit_drop_bit_eq
      take_bit_eq_mod [symmetric, where n = 8, simplified] drop_bit_eq_div [symmetric, where n = 8, simplified])
  show ?thesis by (simp only: le16_def lo hi)
qed

lemma unat_size: "unat (word_of_nat n :: 16 word) = n mod 65536"
  by (simp add: unat_of_nat)


lemma transmit_keeps:
  "lastFrameMode (transmit jpeg w h fd m n s) = lastFrameMode s"
  "lastImage (transmit jpeg w h fd m n s) = lastImage s"
  "diffBuf (transmit jpeg w h fd m n s) = diffBuf s"
  "diffMap (transmit jpeg w h fd m n s) = diffMap s"
  "waitConnection (transmit jpeg w h fd m n s) = waitConnection s"
  "connected (sock (transmit jpeg w h fd m n s)) = connected (sock s)"
  "attempts (sock (transmit jpeg w h fd m n s)) = attempts (sock s)"
  by (simp_all add: transmit_def Let_def socketSend_wire)

lemma transmit_counters:
  "forceFrameCount (transmit jpeg w h fd m n s) =
     (if m = FM_FULL then 0
      else if m = FM_NONE then forceFrameCount s + 1
      else if m = FM_DIFF then forceFrameCount s + 5
      else if m = FM_CHECKER \<or> m = FM_CHECKER_COMPL then forceFrameCount s + 3
      else forceFrameCount s)"
  "checker (transmit jpeg w h fd m n s) =
     (if m = FM_CHECKER \<or> m = FM_CHECKER_COMPL then (checker s + 1) AND 1 else checker s)"
  by (simp_all add: transmit_def Let_def modes_neq)

lemma pfd_frame:
  "select_frame_mode w h fd (maintain_connection env s) = (m, n, s2) \<Longrightarrow>
   snd (processFrameData jpeg (w, h) env (Some fd) s) =
     (let s4 = transmit jpeg w h fd m n (s2\<lparr>lastFrameMode := m\<rparr>)
      in s4\<lparr>sock := snd (readConfirmation env (sock s4))\<rparr>)"
  by (simp add: processFrameData_def Let_def split: prod.splits)

lemma readConfirmation_keeps:
  "wire (snd (readConfirmation env sk)) = wire sk"
  "connected (snd (readConfirmation env sk)) = connected sk"
  "attempts (snd (readConfirmation env sk)) = attempts sk"
  by (simp_all add: readConfirmation_def split: list.splits)

lemma pfd_fields:
  assumes sel: "select_frame_mode w h fd (maintain_connection env s) = (m, n, s2)"
    and s': "s' = snd (processFrameData jpeg (w, h) env (Some fd) s)"
  shows "lastFrameMode s' = m"
    and "lastImage s' = lastImage s2" and "diffBuf s' = diffBuf s2" and "diffMap s' = diffMap s2"
    and "forceFrameCount s' =
          (if m = FM_FULL then 0
           else if m = FM_NONE then forceFrameCount s + 1
           else if m = FM_DIFF then forceFrameCount s + 5
           else if m = FM_CHECKER \<or> m = FM_CHECKER_COMPL then forceFrameCount s + 3
           else forceFrameCount s)"
    and "checker s' =
          (if m = FM_CHECKER \<or> m = FM_CHECKER_COMPL then (checker s + 1) AND 1 else checker s)"
  using select_frame_mode_keeps [OF sel]
  by (simp_all add: s' pfd_frame [OF sel] Let_def transmit_keeps transmit_counters
      maintain_connection_keeps)

lemma select_frame_mode_first:
  "lastImage s = None \<Longrightarrow>
   select_frame_mode w h fd s = (FM_FULL, 0, s\<lparr>lastImage := Some (take (w * h * 3) fd)\<rparr>)"
  by (simp add: select_frame_mode_def Let_def)

lemma select_frame_mode_forced:
  "lastImage s = Some prev \<Longrightarrow> forceFrameCount s > 100 \<Longrightarrow>
   select_frame_mode w h fd s = (FM_FULL, 0, s)"
  by (simp add: select_frame_mode_def Let_def)

lemma select_frame_mode_compl:
  "lastImage s = Some prev \<Longrightarrow> \<not> forceFrameCount s > 100 \<Longrightarrow> lastFrameMode s = FM_CHECKER \<Longrightarrow>
   select_frame_mode w h fd s = (FM_CHECKER_COMPL, 0, s)"
  by (simp add: select_frame_mode_def Let_def modes_neq)

lemma select_frame_mode_diff:
  "lastImage s = Some prev \<Longrightarrow> \<not> forceFrameCount s > 100 \<Longrightarrow> lastFrameMode s \<noteq> FM_CHECKER \<Longrightarrow>
   imageDiff prev (diffBuf s) (diffMap s) fd w h = (n, prev', dbuf', dmap') \<Longrightarrow>
   select_frame_mode w h fd s =
     (if n > 400 then FM_CHECKER else if n > 0 then FM_DIFF else FM_NONE, n,
      s\<lparr>lastImage := Some prev', diffBuf := dbuf', diffMap := dmap'\<rparr>)"
  by (simp add: select_frame_mode_def Let_def modes_neq)

lemma select_frame_mode_range:
  "select_frame_mode w h fd s = (m, n, s2) \<Longrightarrow>
   m \<in> {FM_NONE, FM_FULL, FM_DIFF, FM_CHECKER, FM_CHECKER_COMPL}"
  by (auto simp: select_frame_mode_def Let_def split: option.splits if_splits prod.splits)

lemma pfd_first:
  assumes "lastImage s = None" and s': "s' = snd (processFrameData jpeg (w, h) env (Some fd) s)"
  shows "lastFrameMode s' = FM_FULL" and "lastImage s' = Some (take (w * h * 3) fd)"
    and "diffBuf s' = diffBuf s" and "diffMap s' = diffMap s"
proof -
  let ?s1 = "maintain_connection env s"
  have "select_frame_mode w h fd ?s1 = (FM_FULL, 0, ?s1\<lparr>lastImage := Some (take (w * h * 3) fd)\<rparr>)"
    using assms(1) by (intro select_frame_mode_first) (simp add: maintain_connection_keeps)
  from pfd_fields(1-4) [OF this s']
  show "lastFrameMode s' = FM_FULL" and "lastImage s' = Some (take (w * h * 3) fd)"
    and "diffBuf s' = diffBuf s" and "diffMap s' = diffMap s"
    by (simp_all add: maintain_connection_keeps)
qed

lemma pfd_forced:
  assumes "lastImage s = Some prev" "forceFrameCount s > 100"
    and s': "s' = snd (processFrameData jpeg (w, h) env (Some fd) s)"
  shows "lastFrameMode s' = FM_FULL" and "lastImage s' = Some prev"
    and "diffBuf s' = diffBuf s" and "diffMap s' = diffMap s"
proof -
  let ?s1 = "maintain_connection env s"
  have "select_frame_mode w h fd ?s1 = (FM_FULL, 0, ?s1)"
    using assms(1,2)
    by (intro select_frame_mode_forced [of _ prev]) (simp_all add: maintain_connection_keeps)
  from pfd_fields(1-4) [OF this s'] assms(1)
  show "lastFrameMode s' = FM_FULL" and "lastImage s' = Some prev"
    and "diffBuf s' = diffBuf s" and "diffMap s' = diffMap s"
    by (simp_all add: maintain_connection_keeps)
qed

lemma pfd_compl:
  assumes "lastImage s = Some prev" "\<not> forceFrameCount s > 100" "lastFrameMode s = FM_CHECKER"
    and s': "s' = snd (processFrameData jpeg (w, h) env (Some fd) s)"
  shows "lastFrameMode s' = FM_CHECKER_COMPL" and "lastImage s' = Some prev"
    and "diffBuf s' = diffBuf s" and "diffMap s' = diffMap s"
proof -
  let ?s1 = "maintain_connection env s"
  have "select_frame_mode w h fd ?s1 = (FM_CHECKER_COMPL, 0, ?s1)"
    using assms(1-3)
    by (intro select_frame_mode_compl [of _ prev]) (simp_all add: maintain_connection_keeps)
  from pfd_fields(1-4) [OF this s'] assms(1)
  show "lastFrameMode s' = FM_CHECKER_COMPL" and "lastImage s' = Some prev"
    and "diffBuf s' = diffBuf s" and "diffMap s' = diffMap s"
    by (simp_all add: maintain_connection_keeps)
qed

lemma pfd_differ:
  assumes "lastImage s = Some prev" "\<not> forceFrameCount s > 100" "lastFrameMode s \<noteq> FM_CHECKER"
    and d: "imageDiff prev (diffBuf s) (diffMap s) fd w h = (n, prev', dbuf', dmap')"
    and s': "s' = snd (processFrameData jpeg (w, h) env (Some fd) s)"
  shows "lastFrameMode s' = (if n > 400 then FM_CHECKER else if n > 0 then FM_DIFF else FM_NONE)"
    and "lastImage s' = Some prev'" and "diffBuf s' = dbuf'" and "diffMap s' = dmap'"
proof -
  let ?s1 = "maintain_connection env s"
  have sel: "select_frame_mode w h fd ?s1 =
      (if n > 400 then FM_CHECKER else if n > 0 then FM_DIFF else FM_NONE, n,
       ?s1\<lparr>lastImage := Some prev', diffBuf := dbuf', diffMap := dmap'\<rparr>)"
    using assms(1-4)
    by (intro select_frame_mode_diff [of _ prev]) (simp_all add: maintain_connection_keeps)
  from pfd_fields(1-4) [OF sel s']
  show "lastFrameMode s' = (if n > 400 then FM_CHECKER else if n > 0 then FM_DIFF else FM_NONE)"
    and "lastImage s' = Some prev'" and "diffBuf s' = dbuf'" and "diffMap s' = dmap'"
    by simp_all
qed

lemma pfd_counters:
  assumes s': "s' = snd (processFrameData jpeg (w, h) env (Some fd) s)"
  shows "lastFrameMode s' \<in> {FM_NONE, FM_FULL, FM_DIFF, FM_CHECKER, FM_CHECKER_COMPL}"
    and "forceFrameCount s' =
          (if lastFrameMode s' = FM_FULL then 0
           else if lastFrameMode s' = FM_NONE then forceFrameCount s + 1
           else if lastFrameMode s' = FM_DIFF then forceFrameCount s + 5
           else forceFrameCount s + 3)"
    and "checker s' =
          (if lastFrameMode s' = FM_CHECKER \<or> lastFrameMode s' = FM_CHECKER_COMPL
           then (checker s + 1) AND 1 else checker s)"
proof -
  obtain m n s2 where sel: "select_frame_mode w h fd (maintain_connection env s) = (m, n, s2)"
    by (metis prod_cases3)
  note f = pfd_fields [OF sel s']
  from select_frame_mode_range [OF sel]
  show "lastFrameMode s' \<in> {FM_NONE, FM_FULL, FM_DIFF, FM_CHECKER, FM_CHECKER_COMPL}"
    and "forceFrameCount s' =
          (if lastFrameMode s' = FM_FULL then 0
           else if lastFrameMode s' = FM_NONE then forceFrameCount s + 1
           else if lastFrameMode s' = FM_DIFF then forceFrameCount s + 5
           else forceFrameCount s + 3)"
    and "checker s' =
          (if lastFrameMode s' = FM_CHECKER \<or> lastFrameMode s' = FM_CHECKER_COMPL
           then (checker s + 1) AND 1 else checker s)"
    unfolding f(1) f(5) f(6) by (auto simp: modes_neq)
qed

lemma pfd_poll:
  "snd (processFrameData jpeg layout env None s) =
     (maintain_connection env s)\<lparr>sock := snd (readConfirmation env (sock (maintain_connection env s)))\<rparr>"
  by (simp add: processFrameData_def Let_def split: prod.splits)

lemma transmit_wire_down:
  "\<not> connected (sock s) \<Longrightarrow> wire (sock (transmit jpeg w h fd m n s)) = wire (sock s)"
  by (simp add: transmit_def Let_def socketSend_def)

lemma pfd_link:
  "connected (sock (snd (processFrameData jpeg layout env fd s))) =
     connected (sock (maintain_connection env s)) \<and>
   attempts (sock (snd (processFrameData jpeg layout env fd s))) =
     attempts (sock (maintain_connection env s)) \<and>
   waitConnection (snd (processFrameData jpeg layout env fd s)) =
     waitConnection (maintain_connection env s) \<and>
   (\<not> connected (sock (maintain_connection env s)) \<longrightarrow>
     wire (sock (snd (processFrameData jpeg layout env fd s))) = wire (sock s))"
proof (cases fd)
  case None
  then show ?thesis
    by (simp add: pfd_poll readConfirmation_keeps maintain_connection_keeps)
next
  case (Some f)
  obtain w h where layout: "layout = (w, h)" by (cases layout)
  obtain m n s2 where sel: "select_frame_mode w h f (maintain_connection env s) = (m, n, s2)"
    by (metis prod_cases3)
  note k = select_frame_mode_keeps [OF sel]
  show ?thesis
    by (simp add: Some layout pfd_frame [OF sel] Let_def readConfirmation_keeps transmit_keeps
        transmit_wire_down k maintain_connection_keeps)
qed

lemma maintain_connection_down:
  assumes "\<not> connected (sock s) \<or> link_lost env"
  shows "waitConnection s = 0 \<Longrightarrow>
           attempts (sock (maintain_connection env s)) = attempts (sock s) + 1 \<and>
           waitConnection (maintain_connection env s) = 300 \<and>
           connected (sock (maintain_connection env s)) = connect_ok env"
    and "waitConnection s \<noteq> 0 \<Longrightarrow>
           attempts (sock (maintain_connection env s)) = attempts (sock s) \<and>
           waitConnection (maintain_connection env s) = waitConnection s - 1 \<and>
           \<not> connected (sock (maintain_connection env s))"
  using assms by (auto simp: maintain_connection_def Let_def)

lemma run_append: "run jpeg layout s (xs @ ys) = run jpeg layout (run jpeg layout s xs) ys"
  by (induction xs arbitrary: s) auto

lemma run_waiting:
  assumes "\<not> connected (sock s)" "length calls \<le> waitConnection s"
  shows "\<not> connected (sock (run jpeg layout s calls)) \<and>
         attempts (sock (run jpeg layout s calls)) = attempts (sock s) \<and>
         wire (sock (run jpeg layout s calls)) = wire (sock s) \<and>
         waitConnection (run jpeg layout s calls) = waitConnection s - length calls"
  using assms
proof (induction calls arbitrary: s)
  case Nil
  then show ?case by simp
next
  case (Cons c calls)
  obtain env fd where c: "c = (env, fd)" by (cases c)
  let ?s' = "snd (processFrameData jpeg layout env fd s)"
  from Cons.prems have nz: "waitConnection s \<noteq> 0" by auto
  from maintain_connection_down(2) [OF _ nz, of env] Cons.prems(1)
  have m: "attempts (sock (maintain_connection env s)) = attempts (sock s)"
    "waitConnection (maintain_connection env s) = waitConnection s - 1"
    "\<not> connected (sock (maintain_connection env s))"
    by auto
  from pfd_link [of jpeg layout env fd s] m
  have s': "\<not> connected (sock ?s')" "attempts (sock ?s') = attempts (sock s)"
    "waitConnection ?s' = waitConnection s - 1" "wire (sock ?s') = wire (sock s)"
    by auto
  from Cons.prems s' have "length calls \<le> waitConnection ?s'" by auto
  from Cons.IH [OF s'(1) this] s' show ?case by (simp add: c)
qed

lemma pfd_lastImage_poll:
  "lastImage (snd (processFrameData jpeg layout env None s)) = lastImage s \<and>
   diffBuf (snd (processFrameData jpeg layout env None s)) = diffBuf s \<and>
   diffMap (snd (processFrameData jpeg layout env None s)) = diffMap s \<and>
   forceFrameCount (snd (processFrameData jpeg layout env None s)) = forceFrameCount s \<and>
   checker (snd (processFrameData jpeg layout env None s)) = checker s \<and>
   lastFrameMode (snd (processFrameData jpeg layout env None s)) = lastFrameMode s"
  by (simp add: pfd_poll maintain_connection_keeps)

section \<open>The claims about mode selection and the counters\<close>

text \<open>
  C1. A call that supplies a frame selects its mode in this order. With a previous-frame
  buffer established: \<open>FULL\<close> if \<open>forceFrameCount > 100\<close>; else \<open>CHECKER_COMPL\<close> if the
  last mode was \<open>CHECKER\<close> (in both cases the differencer does not run); else the
  differencer runs, and the mode is \<open>CHECKER\<close> when the dirty count exceeds 400 (a third of
  the 1200 blocks of the 240x320 layout), \<open>DIFF\<close> when it is between 1 and 400, and
  \<open>NONE\<close> when it is 0. With no previous-frame buffer (the first call ever) the mode is
  \<open>FULL\<close> and the buffer becomes a copy of the frame. The selected mode is what the call
  leaves in \<open>lastFrameMode\<close>.
\<close>

theorem frame_mode_selection:
  assumes s': "s' = snd (processFrameData jpeg (w, h) env (Some fd) s)"
  shows "(lastImage s = None \<longrightarrow>
            lastFrameMode s' = FM_FULL \<and> lastImage s' = Some (take (w * h * 3) fd) \<and>
            (length fd = w * h * 3 \<longrightarrow> lastImage s' = Some fd)) \<and>
         (\<forall>prev n prev' dbuf' dmap'.
            lastImage s = Some prev \<and>
            imageDiff prev (diffBuf s) (diffMap s) fd w h = (n, prev', dbuf', dmap') \<longrightarrow>
            (forceFrameCount s > 100 \<longrightarrow> lastFrameMode s' = FM_FULL) \<and>
            (\<not> forceFrameCount s > 100 \<and> lastFrameMode s = FM_CHECKER \<longrightarrow>
               lastFrameMode s' = FM_CHECKER_COMPL) \<and>
            (forceFrameCount s > 100 \<or> lastFrameMode s = FM_CHECKER \<longrightarrow>
               lastImage s' = lastImage s \<and> diffBuf s' = diffBuf s \<and> diffMap s' = diffMap s) \<and>
            (\<not> forceFrameCount s > 100 \<and> lastFrameMode s \<noteq> FM_CHECKER \<longrightarrow>
               lastImage s' = Some prev' \<and> diffBuf s' = dbuf' \<and> diffMap s' = dmap' \<and>
               (n > 400 \<longrightarrow> lastFrameMode s' = FM_CHECKER) \<and>
               (0 < n \<and> n \<le> 400 \<longrightarrow> lastFrameMode s' = FM_DIFF) \<and>
               (n = 0 \<longrightarrow> lastFrameMode s' = FM_NONE))) \<and>
         ((fst ctroll_layout div 8) * (snd ctroll_layout div 8)) div 3 = 400"
proof -
  have blocks: "((fst ctroll_layout div 8) * (snd ctroll_layout div 8)) div 3 = (400::nat)"
    by (simp add: ctroll_layout_def)
  show ?thesis
    using pfd_first [OF _ s'] pfd_forced [OF _ _ s'] pfd_compl [OF _ _ _ s']
      pfd_differ [OF _ _ _ _ s'] blocks
    by (cases "forceFrameCount s > 100"; cases "lastFrameMode s = FM_CHECKER") auto
qed

text \<open>
  C5. After a call that supplies a frame, \<open>forceFrameCount\<close> is 0 if the mode was
  \<open>FULL\<close>, one more if it was \<open>NONE\<close>, five more if it was \<open>DIFF\<close> and three more if it
  was \<open>CHECKER\<close> or \<open>CHECKER_COMPL\<close>; \<open>checker\<close> toggles between 0 and 1 after a checker
  mode and is unchanged after any other mode. The counters change whether or not the socket
  is connected.
\<close>

theorem counter_updates:
  assumes s': "s' = snd (processFrameData jpeg (w, h) env (Some fd) s)"
  shows "lastFrameMode s' \<in> {FM_NONE, FM_FULL, FM_DIFF, FM_CHECKER, FM_CHECKER_COMPL} \<and>
         (lastFrameMode s' = FM_FULL \<longrightarrow> forceFrameCount s' = 0) \<and>
         (lastFrameMode s' = FM_NONE \<longrightarrow> forceFrameCount s' = forceFrameCount s + 1) \<and>
         (lastFrameMode s' = FM_DIFF \<longrightarrow> forceFrameCount s' = forceFrameCount s + 5) \<and>
         (lastFrameMode s' = FM_CHECKER \<or> lastFrameMode s' = FM_CHECKER_COMPL \<longrightarrow>
            forceFrameCount s' = forceFrameCount s + 3 \<and>
            checker s' = (checker s + 1) AND 1 \<and>
            (checker s = 0 \<longrightarrow> checker s' = 1) \<and> (checker s = 1 \<longrightarrow> checker s' = 0)) \<and>
         (lastFrameMode s' \<noteq> FM_CHECKER \<and> lastFrameMode s' \<noteq> FM_CHECKER_COMPL \<longrightarrow>
            checker s' = checker s)"
proof -
  have "(1 + 1 :: int) AND 1 = 0" "(0 + 1 :: int) AND 1 = 1" by simp_all
  with pfd_counters [OF s'] show ?thesis
    by (auto simp: modes_neq)
qed

text \<open>
  C8. \<open>socketSend\<close> on a socket that is not connected returns 0 and leaves the socket as it
  is. A call of \<open>processFrameData\<close> during which the socket is not connected writes nothing.
  Only the connection is retried: a call that finds the socket disconnected makes an attempt
  when \<open>waitConnection\<close> is 0 and sets it to 300, and otherwise only decrements it; so after
  a failed attempt the next 300 calls make no attempt and the call after them makes one.
\<close>

theorem send_disconnected:
  "(\<not> connected sk \<longrightarrow> socketSend sk d = (0, sk)) \<and>
   (\<not> connected (sock (maintain_connection env s)) \<longrightarrow>
      wire (sock (snd (processFrameData jpeg layout env fd s))) = wire (sock s) \<and>
      \<not> connected (sock (snd (processFrameData jpeg layout env fd s)))) \<and>
   (\<not> connected (sock s) \<or> link_lost env \<longrightarrow>
      (waitConnection s = 0 \<longrightarrow>
         attempts (sock (snd (processFrameData jpeg layout env fd s))) = attempts (sock s) + 1 \<and>
         waitConnection (snd (processFrameData jpeg layout env fd s)) = 300 \<and>
         connected (sock (snd (processFrameData jpeg layout env fd s))) = connect_ok env) \<and>
      (waitConnection s \<noteq> 0 \<longrightarrow>
         attempts (sock (snd (processFrameData jpeg layout env fd s))) = attempts (sock s) \<and>
         waitConnection (snd (processFrameData jpeg layout env fd s)) = waitConnection s - 1 \<and>
         \<not> connected (sock (snd (processFrameData jpeg layout env fd s))))) \<and>
   (\<not> connected (sock s) \<and> waitConnection s = 300 \<and> length calls \<le> 300 \<longrightarrow>
      attempts (sock (run jpeg layout s calls)) = attempts (sock s) \<and>
      wire (sock (run jpeg layout s calls)) = wire (sock s) \<and>
      waitConnection (run jpeg layout s calls) = 300 - length calls \<and>
      (length calls = 300 \<longrightarrow>
         attempts (sock (snd (processFrameData jpeg layout env fd (run jpeg layout s calls)))) =
           attempts (sock s) + 1))"
proof -
  note l = pfd_link [of jpeg layout env fd s]
  have a: "\<not> connected sk \<longrightarrow> socketSend sk d = (0, sk)"
    by (simp add: socketSend_def)
  have b: "\<not> connected (sock (maintain_connection env s)) \<longrightarrow>
      wire (sock (snd (processFrameData jpeg layout env fd s))) = wire (sock s) \<and>
      \<not> connected (sock (snd (processFrameData jpeg layout env fd s)))"
    using l by simp
  have c: "\<not> connected (sock s) \<or> link_lost env \<longrightarrow>
      (waitConnection s = 0 \<longrightarrow>
         attempts (sock (snd (processFrameData jpeg layout env fd s))) = attempts (sock s) + 1 \<and>
         waitConnection (snd (processFrameData jpeg layout env fd s)) = 300 \<and>
         connected (sock (snd (processFrameData jpeg layout env fd s))) = connect_ok env) \<and>
      (waitConnection s \<noteq> 0 \<longrightarrow>
         attempts (sock (snd (processFrameData jpeg layout env fd s))) = attempts (sock s) \<and>
         waitConnection (snd (processFrameData jpeg layout env fd s)) = waitConnection s - 1 \<and>
         \<not> connected (sock (snd (processFrameData jpeg layout env fd s))))"
    using l maintain_connection_down [of s env] by auto
  have d: "attempts (sock (run jpeg layout s calls)) = attempts (sock s) \<and>
      wire (sock (run jpeg layout s calls)) = wire (sock s) \<and>
      waitConnection (run jpeg layout s calls) = 300 - length calls \<and>
      (length calls = 300 \<longrightarrow>
         attempts (sock (snd (processFrameData jpeg layout env fd (run jpeg layout s calls)))) =
           attempts (sock s) + 1)"
    if "\<not> connected (sock s)" "waitConnection s = 300" "length calls \<le> 300"
  proof -
    let ?t = "run jpeg layout s calls"
    from run_waiting [of s calls jpeg layout] that
    have t: "\<not> connected (sock ?t)" "attempts (sock ?t) = attempts (sock s)"
      "wire (sock ?t) = wire (sock s)" "waitConnection ?t = 300 - length calls"
      by auto
    have "attempts (sock (snd (processFrameData jpeg layout env fd ?t))) = attempts (sock s) + 1"
      if "length calls = 300"
      using pfd_link [of jpeg layout env fd ?t]
        maintain_connection_down(1) [of ?t env] t that by simp
    with t show ?thesis by simp
  qed
  from a b c d show ?thesis by blast
qed

text \<open>
  C10. A call without a frame leaves the previous-frame buffer as it is; the first call with
  a frame establishes it; once established, a call that selects \<open>FULL\<close> or
  \<open>CHECKER_COMPL\<close> leaves it unchanged, and it changes only when the differencer runs, to
  the differencer's output. So when a \<open>FULL\<close> is forced, the differencer of the next call
  still compares its frame with the reference from before the \<open>FULL\<close>.
\<close>

theorem lastImage_mutation:
  assumes s': "s' = snd (processFrameData jpeg (w, h) env (Some fd) s)"
    and s'': "s'' = snd (processFrameData jpeg (w, h) env2 (Some fd2) s')"
  shows "lastImage (snd (processFrameData jpeg (w, h) env None s)) = lastImage s \<and>
         (lastImage s = None \<longrightarrow> lastImage s' = Some (take (w * h * 3) fd)) \<and>
         (lastImage s = Some prev \<longrightarrow>
            (lastFrameMode s' = FM_FULL \<or> lastFrameMode s' = FM_CHECKER_COMPL \<longrightarrow>
               lastImage s' = Some prev) \<and>
            (lastImage s' \<noteq> Some prev \<longrightarrow>
               \<not> forceFrameCount s > 100 \<and> lastFrameMode s \<noteq> FM_CHECKER \<and>
               lastImage s' = Some (fst (snd (imageDiff prev (diffBuf s) (diffMap s) fd w h)))) \<and>
            (forceFrameCount s > 100 \<longrightarrow>
               lastFrameMode s' = FM_FULL \<and> lastImage s' = Some prev \<and>
               lastImage s'' = Some (fst (snd (imageDiff prev (diffBuf s) (diffMap s) fd2 w h)))))"
proof -
  have poll: "lastImage (snd (processFrameData jpeg (w, h) env None s)) = lastImage s"
    by (simp add: pfd_lastImage_poll)
  have first: "lastImage s = None \<longrightarrow> lastImage s' = Some (take (w * h * 3) fd)"
    using pfd_first(2) [OF _ s'] by simp
  have rest: "(lastFrameMode s' = FM_FULL \<or> lastFrameMode s' = FM_CHECKER_COMPL \<longrightarrow>
               lastImage s' = Some prev) \<and>
            (lastImage s' \<noteq> Some prev \<longrightarrow>
               \<not> forceFrameCount s > 100 \<and> lastFrameMode s \<noteq> FM_CHECKER \<and>
               lastImage s' = Some (fst (snd (imageDiff prev (diffBuf s) (diffMap s) fd w h)))) \<and>
            (forceFrameCount s > 100 \<longrightarrow>
               lastFrameMode s' = FM_FULL \<and> lastImage s' = Some prev \<and>
               lastImage s'' = Some (fst (snd (imageDiff prev (diffBuf s) (diffMap s) fd2 w h))))"
    if prev: "lastImage s = Some prev"
  proof -
    obtain n prev' dbuf' dmap' where
      d: "imageDiff prev (diffBuf s) (diffMap s) fd w h = (n, prev', dbuf', dmap')"
      by (metis prod_cases4)
    have forced: "forceFrameCount s > 100 \<Longrightarrow> lastFrameMode s' = FM_FULL"
      using pfd_forced(1) [OF prev _ s'] by simp
    have keep: "forceFrameCount s > 100 \<or> lastFrameMode s = FM_CHECKER \<Longrightarrow>
          lastImage s' = Some prev \<and> diffBuf s' = diffBuf s \<and> diffMap s' = diffMap s"
      using pfd_forced(2-4) [OF prev _ s'] pfd_compl(2-4) [OF prev _ _ s']
      by (cases "forceFrameCount s > 100") auto
    have ran: "\<not> forceFrameCount s > 100 \<Longrightarrow> lastFrameMode s \<noteq> FM_CHECKER \<Longrightarrow>
          lastImage s' = Some prev' \<and> lastFrameMode s' \<in> {FM_CHECKER, FM_DIFF, FM_NONE}"
      using pfd_differ(1,2) [OF prev _ _ d s'] by simp
    have a: "lastFrameMode s' = FM_FULL \<or> lastFrameMode s' = FM_CHECKER_COMPL \<longrightarrow>
        lastImage s' = Some prev"
      using keep ran by (cases "forceFrameCount s > 100"; cases "lastFrameMode s = FM_CHECKER")
        (auto simp: modes_neq)
    have b: "lastImage s' \<noteq> Some prev \<longrightarrow>
        \<not> forceFrameCount s > 100 \<and> lastFrameMode s \<noteq> FM_CHECKER \<and>
        lastImage s' = Some (fst (snd (imageDiff prev (diffBuf s) (diffMap s) fd w h)))"
      using keep ran d by (cases "forceFrameCount s > 100"; cases "lastFrameMode s = FM_CHECKER") auto
    have c: "lastFrameMode s' = FM_FULL \<and> lastImage s' = Some prev \<and>
        lastImage s'' = Some (fst (snd (imageDiff prev (diffBuf s) (diffMap s) fd2 w h)))"
      if big: "forceFrameCount s > 100"
    proof -
      from forced keep big have 1: "lastFrameMode s' = FM_FULL" "lastImage s' = Some prev"
        "diffBuf s' = diffBuf s" "diffMap s' = diffMap s" by auto
      from pfd_counters(2) [OF s'] 1 have 2: "forceFrameCount s' = 0" by simp
      obtain n2 p2 db2 dm2 where
        d2: "imageDiff prev (diffBuf s') (diffMap s') fd2 w h = (n2, p2, db2, dm2)"
        by (metis prod_cases4)
      from pfd_differ(2) [OF 1(2) _ _ d2 s''] 1 2 have "lastImage s'' = Some p2"
        by (simp add: modes_neq)
      with d2 1 show ?thesis by simp
    qed
    from a b c show ?thesis by blast
  qed
  from poll first rest show ?thesis by blast
qed

section \<open>Loops and the checker sampling\<close>

lemma for_loop_steps:
  "0 < st \<Longrightarrow> for_loop (st * a) (st * m) st body s = fold (\<lambda>k. body (st * k)) [a..<m] s"
proof (induction "m - a" arbitrary: a s)
  case 0
  then show ?case by (simp add: for_loop.simps)
next
  case (Suc d)
  then have lt: "a < m" and d: "d = m - Suc a" by auto
  have "for_loop (st * a) (st * m) st body s = for_loop (st * Suc a) (st * m) st body (body (st * a) s)"
    using lt Suc.prems by (subst for_loop.simps) (simp add: add.commute)
  also have "\<dots> = fold (\<lambda>k. body (st * k)) [Suc a..<m] (body (st * a) s)"
    using Suc.hyps(1) [OF d Suc.prems] .
  finally show ?case using lt by (simp add: upt_conv_Cons)
qed

lemma for_loop_unit: "for_loop 0 n 1 body s = fold body [0..<n] s"
  using for_loop_steps [of 1 0 n body s] by simp

lemma for_loop_unit': "for_loop 0 n (Suc 0) body s = fold body [0..<n] s"
  using for_loop_unit [of n body s] by simp

lemma for_loop_by8: "for_loop 0 (8 * m) 8 body s = fold (\<lambda>k. body (8 * k)) [0..<m] s"
  using for_loop_steps [of 8 0 m body s] by simp

lemma fold_upt_Suc: "fold f [0..<Suc n] x = f n (fold f [0..<n] x)"
  by simp

lemma lnot_parity: "lnot (of_bool (odd q)) = of_bool (odd (Suc q))"
  by (simp add: lnot_def)

lemma lnot_parity_nz: "lnot (of_bool (odd q)) \<noteq> 0 \<longleftrightarrow> even q"
  by (simp add: lnot_def)

lemma checker_cols:
  "fold (\<lambda>i. checker_pixel frame) [0..<n] (buf, inp, of_bool (odd q)) =
     (buf @ concat (map (\<lambda>i. pick frame (inp + 3 * i)) (filter (\<lambda>i. even (q + i)) [0..<n])),
      inp + 3 * n, of_bool (odd (q + n)))"
proof (induction n)
  case 0
  show ?case by simp
next
  case (Suc n)
  have step: "checker_pixel frame (b, p, of_bool (odd r)) =
      (if even r then b @ pick frame p else b, p + 3, of_bool (odd (Suc r)))" for b p r
    unfolding checker_pixel_def prod.case lnot_parity lnot_parity_nz pick_def by simp
  show ?case
    unfolding fold_upt_Suc Suc step by (simp add: add.assoc)
qed

lemma checker_rows:
  assumes "even w"
  shows "fold (\<lambda>j st. case for_loop 0 w 1 (\<lambda>i. checker_pixel frame) st of
                       (buf, inp, skip) \<Rightarrow> (buf, inp, lnot skip)) [0..<n] ([], 0, of_bool (odd c)) =
     (concat (map (\<lambda>j. concat (map (\<lambda>i. pick frame (3 * (j * w) + 3 * i)) (sample_cols c w j))) [0..<n]),
      3 * (n * w), of_bool (odd (c + n)))"
    (is "fold ?row [0..<n] ?init = ?res n")
proof (induction n)
  case 0
  show ?case by simp
next
  case (Suc n)
  have par: "odd (Suc (c + n + w)) = odd (c + Suc n)"
    using assms by simp
  have w3: "3 * (n * w) + 3 * w = 3 * (Suc n * w)" by simp
  have cols: "filter (\<lambda>i. even (c + n + i)) [0..<w] = sample_cols c w n"
    by (simp add: sample_cols_def)
  have "fold ?row [0..<Suc n] ?init = ?row n (fold ?row [0..<n] ?init)"
    by simp
  also have "\<dots> = ?row n (?res n)"
    by (simp only: Suc)
  also have "\<dots> = ?res (Suc n)"
    unfolding for_loop_unit checker_cols prod.case lnot_parity par w3 cols by simp
  finally show ?case .
qed

lemma concat_rows_pairs:
  "concat (map (\<lambda>j. concat (map (g j) (cs j))) [0..<h]) =
   concat (map (\<lambda>(j, i). g j i) (concat (map (\<lambda>j. map (\<lambda>i. (j, i)) (cs j)) [0..<h])))"
  by (induction h) (simp_all add: comp_def)

lemma checker_sample_eq:
  assumes "even w" "c < 2"
  shows "checker_sample frame w h (int c) =
     concat (map (\<lambda>(j, i). pick frame (3 * (j * w) + 3 * i)) (sample_positions c w h))"
proof -
  have c: "int c = of_bool (odd c)"
    using assms(2) by (cases "c = 0") auto
  show ?thesis
    unfolding checker_sample_def for_loop_unit [of h] c checker_rows [OF assms(1)] fst_conv
      sample_positions_def
    by (rule concat_rows_pairs)
qed

lemma length_sample_cols:
  assumes "even w"
  shows "length (sample_cols c w j) = w div 2"
proof -
  have half: "length (filter (\<lambda>i. even (q + i)) [0..<2 * k]) = k" for q k
    by (induction k) auto
  from assms obtain k where w: "w = 2 * k" by (elim evenE)
  show ?thesis
    unfolding sample_cols_def w using half [of "c + j" k] by simp
qed

lemma set_sample_positions:
  "set (sample_positions c w h) = {(j, i). j < h \<and> i < w \<and> even (c + j + i)}"
  by (auto simp: sample_positions_def sample_cols_def)

lemma distinct_sample_positions: "distinct (sample_positions c w h)"
  unfolding sample_positions_def
  by (induction h) (auto simp: distinct_map sample_cols_def inj_on_def)

lemma pfd_transmit:
  assumes sel: "select_frame_mode w h fd (maintain_connection env s) = (m, n, s2)"
    and s': "s' = snd (processFrameData jpeg (w, h) env (Some fd) s)"
  shows "outBuf s' = outBuf (transmit jpeg w h fd m n (s2\<lparr>lastFrameMode := m\<rparr>))"
    and "outDiffBuf s' = outDiffBuf (transmit jpeg w h fd m n (s2\<lparr>lastFrameMode := m\<rparr>))"
    and "wire (sock s') = wire (sock (transmit jpeg w h fd m n (s2\<lparr>lastFrameMode := m\<rparr>)))"
  by (simp_all add: s' pfd_frame [OF sel] Let_def readConfirmation_keeps)

lemma transmit_checker:
  assumes "m = FM_CHECKER \<or> m = FM_CHECKER_COMPL"
  shows "outBuf (transmit jpeg w h fd m n s) = jpeg (checker_sample fd w h (checker s)) (w div 2) h 70"
    and "connected (sock s) \<Longrightarrow> wire (sock (transmit jpeg w h fd m n s)) =
      wire (sock s) @ le16 (word_of_int (3 + checker s)) @
      le16 (word_of_nat (length (jpeg (checker_sample fd w h (checker s)) (w div 2) h 70))) @
      take (unat (word_of_nat (length (jpeg (checker_sample fd w h (checker s)) (w div 2) h 70)) :: 16 word))
        (jpeg (checker_sample fd w h (checker s)) (w div 2) h 70)"
  using assms by (auto simp: transmit_def Let_def modes_neq socketSend_def)

lemma pfd_checker_payload:
  assumes s': "s' = snd (processFrameData jpeg (w, h) env (Some fd) s)"
    and m: "lastFrameMode s' = FM_CHECKER \<or> lastFrameMode s' = FM_CHECKER_COMPL"
  shows "outBuf s' = jpeg (checker_sample fd w h (checker s)) (w div 2) h 70"
proof -
  obtain m n s2 where sel: "select_frame_mode w h fd (maintain_connection env s) = (m, n, s2)"
    by (metis prod_cases3)
  from pfd_fields(1) [OF sel s'] m have "m = FM_CHECKER \<or> m = FM_CHECKER_COMPL" by simp
  from transmit_checker(1) [OF this] pfd_transmit(1) [OF sel s'] select_frame_mode_keeps(2) [OF sel]
  show ?thesis by (simp add: maintain_connection_keeps)
qed

text \<open>
  C6. In a checker-mode call the encoder is given the pixels that the sampling loop picks
  with the phase \<open>checker\<close>. For an even width (240), phase \<open>c\<close> picks the pixel at row
  \<open>j\<close> and column \<open>i\<close> exactly when \<open>c + j + i\<close> is even, in row-major order, each position
  once and \<open>width / 2\<close> pixels in every row; the positions of phase 0 and of phase 1 are
  disjoint and together are all the positions of the frame.
\<close>

theorem checkerboard_complete:
  assumes w: "even w" and s': "s' = snd (processFrameData jpeg (w, h) env (Some fd) s)"
  shows "(lastFrameMode s' = FM_CHECKER \<or> lastFrameMode s' = FM_CHECKER_COMPL \<longrightarrow>
            outBuf s' = jpeg (checker_sample fd w h (checker s)) (w div 2) h 70) \<and>
         (\<forall>c<2. checker_sample fd w h (int c) =
            concat (map (\<lambda>(j, i). pick fd (3 * (j * w) + 3 * i)) (sample_positions c w h))) \<and>
         (\<forall>c. set (sample_positions c w h) = {(j, i). j < h \<and> i < w \<and> even (c + j + i)} \<and>
              distinct (sample_positions c w h)) \<and>
         (\<forall>c j. length (sample_cols c w j) = w div 2) \<and>
         set (sample_positions 0 w h) \<inter> set (sample_positions 1 w h) = {} \<and>
         set (sample_positions 0 w h) \<union> set (sample_positions 1 w h) = {0..<h} \<times> {0..<w}"
proof -
  have a: "lastFrameMode s' = FM_CHECKER \<or> lastFrameMode s' = FM_CHECKER_COMPL \<longrightarrow>
      outBuf s' = jpeg (checker_sample fd w h (checker s)) (w div 2) h 70"
    using pfd_checker_payload [OF s'] by blast
  have b: "\<forall>c<2. checker_sample fd w h (int c) =
      concat (map (\<lambda>(j, i). pick fd (3 * (j * w) + 3 * i)) (sample_positions c w h))"
    using checker_sample_eq [OF w] by blast
  have c: "\<forall>c. set (sample_positions c w h) = {(j, i). j < h \<and> i < w \<and> even (c + j + i)} \<and>
      distinct (sample_positions c w h)"
    by (simp add: set_sample_positions distinct_sample_positions)
  have d: "\<forall>c j. length (sample_cols c w j) = w div 2"
    using length_sample_cols [OF w] by blast
  have e: "set (sample_positions 0 w h) \<inter> set (sample_positions 1 w h) = {}"
    unfolding set_sample_positions by auto
  have f: "set (sample_positions 0 w h) \<union> set (sample_positions 1 w h) = {0..<h} \<times> {0..<w}"
    unfolding set_sample_positions by auto
  from a b c d e f show ?thesis by blast
qed

section \<open>The differencer\<close>

lemma length_overwrite:
  "d + length ys \<le> length xs \<Longrightarrow> length (overwrite xs d ys) = length xs"
  by (simp add: overwrite_def)

lemma overwrite_append:
  "d + length ys + length zs \<le> length xs \<Longrightarrow>
   overwrite (overwrite xs d ys) (d + length ys) zs = overwrite xs d (ys @ zs)"
proof -
  assume le: "d + length ys + length zs \<le> length xs"
  then have d: "d \<le> length xs" by simp
  have "take (d + length ys) (take d xs @ ys @ drop (d + length ys) xs) = take d xs @ ys"
    using d by simp
  moreover have "drop (d + length ys + length zs) (take d xs @ ys @ drop (d + length ys) xs) =
      drop (d + length ys + length zs) xs"
    using d by (simp add: add.commute)
  ultimately show ?thesis
    by (simp add: overwrite_def add.assoc)
qed

lemma nth_overwrite:
  "d + length ys \<le> length xs \<Longrightarrow> o' < length xs \<Longrightarrow>
   overwrite xs d ys ! o' = (if d \<le> o' \<and> o' < d + length ys then ys ! (o' - d) else xs ! o')"
  by (auto simp: overwrite_def nth_append min_def)

lemma update_overwrite: "d < length xs \<Longrightarrow> xs[d := x] = overwrite xs d [x]"
  by (simp add: overwrite_def upd_conv_take_nth_drop)

lemma copy_pixel_overwrite:
  assumes "d + 3 \<le> length b"
  shows "copy_pixel src (b, d, s) = (overwrite b d (pick src s), d + 3, s + 3)"
proof -
  have 1: "b[d := src ! s] = overwrite b d [src ! s]"
    using assms by (intro update_overwrite) simp
  have 2: "(overwrite b d [src ! s])[d + 1 := src ! (s + 1)] = overwrite b d [src ! s, src ! (s + 1)]"
    using assms overwrite_append [where d = d and ys = "[src ! s]" and zs = "[src ! (s + 1)]" and xs = b]
    by (simp add: update_overwrite length_overwrite)
  have 3: "(overwrite b d [src ! s, src ! (s + 1)])[d + 2 := src ! (s + 2)] =
      overwrite b d [src ! s, src ! (s + 1), src ! (s + 2)]"
    using assms overwrite_append [where d = d and ys = "[src ! s, src ! (s + 1)]" and zs = "[src ! (s + 2)]" and xs = b]
    by (simp add: update_overwrite length_overwrite)
  show ?thesis
    by (simp only: copy_pixel_def prod.case 1 2 3 pick_def)
qed

lemma copy_row:
  "d + 3 * n \<le> length b \<Longrightarrow>
   fold (\<lambda>j. copy_pixel src) [0..<n] (b, d, s) =
     (overwrite b d (map (\<lambda>c. src ! (s + c)) [0..<3 * n]), d + 3 * n, s + 3 * n)"
proof (induction n)
  case 0
  show ?case by (simp add: overwrite_def)
next
  case (Suc n)
  let ?X = "map (\<lambda>c. src ! (s + c)) [0..<3 * n]"
  have ih: "fold (\<lambda>j. copy_pixel src) [0..<n] (b, d, s) = (overwrite b d ?X, d + 3 * n, s + 3 * n)"
    using Suc by simp
  have len: "d + 3 * n + 3 \<le> length (overwrite b d ?X)"
    using Suc.prems by (simp add: length_overwrite)
  have "[0..<3 * n + 3] = [0..<3 * n] @ [3 * n..<3 * n + 3]"
    by (rule upt_add_eq_append) simp
  moreover have "[3 * n..<3 * n + 3] = [3 * n, 3 * n + 1, 3 * n + 2]"
    by (simp add: upt_rec)
  ultimately have ext: "[0..<3 * Suc n] = [0..<3 * n] @ [3 * n, 3 * n + 1, 3 * n + 2]"
    by (simp add: add.commute)
  have "overwrite (overwrite b d ?X) (d + 3 * n) (pick src (s + 3 * n)) =
      overwrite b d (?X @ pick src (s + 3 * n))"
    using overwrite_append [where d = d and ys = ?X and zs = "pick src (s + 3 * n)" and xs = b] Suc.prems
    by (simp add: pick_def)
  then show ?case
    unfolding fold_upt_Suc ih copy_pixel_overwrite [OF len] ext
    by (simp add: pick_def add.assoc)
qed

lemma copy_row8:
  "d + 24 \<le> length b \<Longrightarrow>
   fold (\<lambda>j. copy_pixel src) [0..<8] (b, d, s) = (overwrite b d (row_bytes src s), d + 24, s + 24)"
  using copy_row [where d = d and n = 8 and b = b and src = src and s = s] by (simp add: row_bytes_def)

lemma length_row_bytes: "length (row_bytes cur p) = 24"
  by (simp add: row_bytes_def)

lemma nth_row_bytes: "c < 24 \<Longrightarrow> row_bytes cur p ! c = cur ! (p + c)"
  by (simp add: row_bytes_def)

lemma length_block_bytes: "length (block_bytes cur rs p) = 192"
  by (simp add: block_bytes_def length_concat comp_def length_row_bytes sum_list_triv)

lemma put_rows:
  "q + 24 * n \<le> length D \<Longrightarrow>
   fold (\<lambda>i st. case fold (\<lambda>j. copy_pixel cur) [0..<8] st of
                  (b, d, s) \<Rightarrow> (b, d, s + rs - 8 * 3)) [0..<n] (D, q, p) =
     (overwrite D q (concat (map (\<lambda>i. row_bytes cur (p + i * rs)) [0..<n])), q + 24 * n, p + n * rs)"
    (is "_ \<Longrightarrow> fold ?row [0..<n] ?init = ?res n")
proof (induction n)
  case 0
  show ?case by (simp add: overwrite_def)
next
  case (Suc n)
  let ?X = "concat (map (\<lambda>i. row_bytes cur (p + i * rs)) [0..<n])"
  have lenX: "length ?X = 24 * n"
    by (simp add: length_concat comp_def length_row_bytes sum_list_triv)
  have ih: "fold ?row [0..<n] ?init = ?res n"
    using Suc by simp
  have len: "q + 24 * n + 24 \<le> length (overwrite D q ?X)"
    using Suc.prems by (simp add: length_overwrite lenX)
  have app: "overwrite (overwrite D q ?X) (q + 24 * n) (row_bytes cur (p + n * rs)) =
      overwrite D q (?X @ row_bytes cur (p + n * rs))"
    using overwrite_append [where d = q and ys = ?X and zs = "row_bytes cur (p + n * rs)" and xs = D]
      Suc.prems
    by (simp add: lenX length_row_bytes)
  show ?case
    unfolding fold_upt_Suc ih prod.case copy_row8 [OF len] app
    by (simp add: add.assoc)
qed

lemma putSquare_overwrite:
  assumes "q + 192 \<le> length D"
  shows "putSquare D q cur p rs = overwrite D q (block_bytes cur rs p)"
  unfolding putSquare_def for_loop_unit block_bytes_def
  using put_rows [where q = q and n = 8 and D = D and cur = cur and rs = rs and p = p] assms
  by simp

lemma copy_rows:
  assumes "n \<le> 8" "d + 7 * rs + 24 \<le> length L"
  shows "case fold (\<lambda>i st. case fold (\<lambda>j. copy_pixel cur) [0..<8] st of
                  (b, d, s) \<Rightarrow> (b, d + rs - 8 * 3, s + rs - 8 * 3)) [0..<n] (L, d, s) of
     (b, d', s') \<Rightarrow> d' = d + n * rs \<and> s' = s + n * rs \<and> length b = length L \<and>
        (\<forall>o'<length L. b ! o' =
           (if \<exists>i<n. d + i * rs \<le> o' \<and> o' < d + i * rs + 24 then cur ! (s + (o' - d)) else L ! o'))"
    (is "case fold ?row [0..<n] ?init of (b, d', s') \<Rightarrow> ?P n b d' s'")
  using assms(1)
proof (induction n)
  case 0
  show ?case by simp
next
  case (Suc n)
  obtain b d' s' where st: "fold ?row [0..<n] ?init = (b, d', s')"
    by (metis prod_cases3)
  with Suc have ih: "?P n b d' s'" by simp
  then have d': "d' = d + n * rs" and s': "s' = s + n * rs" and lenb: "length b = length L"
    and nth: "\<And>o'. o' < length L \<Longrightarrow> b ! o' =
           (if \<exists>i<n. d + i * rs \<le> o' \<and> o' < d + i * rs + 24 then cur ! (s + (o' - d)) else L ! o')"
    by auto
  have "n * rs \<le> 7 * rs"
    by (rule mult_le_mono1) (use Suc.prems in simp)
  with assms(2) have inb: "d' + 24 \<le> length b"
    unfolding d' lenb by linarith
  let ?b' = "overwrite b d' (row_bytes cur s')"
  have step: "fold ?row [0..<Suc n] ?init = (?b', d' + rs, s' + rs)"
    unfolding fold_upt_Suc st prod.case copy_row8 [OF inb] by simp
  have len': "length ?b' = length L"
    using inb by (simp add: length_overwrite length_row_bytes lenb)
  have nth': "?b' ! o' =
      (if \<exists>i<Suc n. d + i * rs \<le> o' \<and> o' < d + i * rs + 24 then cur ! (s + (o' - d)) else L ! o')"
    if o': "o' < length L" for o'
  proof (cases "d' \<le> o' \<and> o' < d' + 24")
    case True
    then have "?b' ! o' = row_bytes cur s' ! (o' - d')"
      using nth_overwrite [where d = d' and ys = "row_bytes cur s'" and xs = b and o' = o'] inb o' lenb
      by (auto simp: length_row_bytes)
    also have "\<dots> = cur ! (s' + (o' - d'))"
    proof -
      from True have "o' - d' < 24" by arith
      then show ?thesis by (rule nth_row_bytes)
    qed
    also have "s' + (o' - d') = s + (o' - d)"
      using True by (simp add: d' s')
    finally show ?thesis using True d' by auto
  next
    case False
    then have "?b' ! o' = b ! o'"
      using nth_overwrite [where d = d' and ys = "row_bytes cur s'" and xs = b and o' = o'] inb o' lenb
      by (auto simp: length_row_bytes)
    with nth [OF o'] False d' show ?thesis
      by (auto simp: less_Suc_eq)
  qed
  show ?case
    unfolding step prod.case using len' nth' by (simp add: d' s' add.assoc)
qed

lemma copySquare_nth:
  assumes "p + 7 * rs + 24 \<le> length L"
  shows "length (copySquare L p cur p rs) = length L"
    and "o' < length L \<Longrightarrow> copySquare L p cur p rs ! o' =
           (if \<exists>i<8. p + i * rs \<le> o' \<and> o' < p + i * rs + 24 then cur ! o' else L ! o')"
proof -
  obtain b d' s' where st: "fold (\<lambda>i st. case fold (\<lambda>j. copy_pixel cur) [0..<8] st of
                  (b, d, s) \<Rightarrow> (b, d + rs - 8 * 3, s + rs - 8 * 3)) [0..<8] (L, p, p) = (b, d', s')"
    by (metis prod_cases3)
  have cs: "copySquare L p cur p rs = b"
    unfolding copySquare_def for_loop_unit st by simp
  from copy_rows [where n = 8 and d = p and rs = rs and L = L and cur = cur and s = p] assms st
  have len: "length b = length L" and nth: "\<And>o'. o' < length L \<Longrightarrow> b ! o' =
           (if \<exists>i<8. p + i * rs \<le> o' \<and> o' < p + i * rs + 24 then cur ! (p + (o' - p)) else L ! o')"
    by auto
  show "length (copySquare L p cur p rs) = length L" by (simp add: cs len)
  show "copySquare L p cur p rs ! o' =
           (if \<exists>i<8. p + i * rs \<le> o' \<and> o' < p + i * rs + 24 then cur ! o' else L ! o')"
    if "o' < length L"
    using nth [OF that] by (auto simp: cs)
qed

lemma mask_128: "(2::int) ^ j = 128 \<longleftrightarrow> j = 7"
proof -
  have "(2::int) ^ j = 2 ^ 7 \<longleftrightarrow> j = 7" by (rule power_inject_exp) simp
  then show ?thesis by simp
qed

lemma imageDiff_block_step:
  assumes "at_block st k (block_offset w k)"
  shows "loop_view (imageDiff_block cur (w * 3) st) = block_step cur w k (loop_view st)"
    and "at_block (imageDiff_block cur (w * 3) st) (Suc k) (block_offset w k + 24)"
proof -
  have nxt: "Suc k mod 8 = (if k mod 8 = 7 then 0 else Suc (k mod 8))"
    "Suc k div 8 = (if k mod 8 = 7 then Suc (k div 8) else k div 8)"
    by (auto simp: mod_Suc div_Suc)
  show "loop_view (imageDiff_block cur (w * 3) st) = block_step cur w k (loop_view st)"
    using assms by (simp add: at_block_def loop_view_def imageDiff_block_def block_step_def Let_def)
  show "at_block (imageDiff_block cur (w * 3) st) (Suc k) (block_offset w k + 24)"
    using assms by (simp add: at_block_def imageDiff_block_def Let_def mask_128 nxt)
qed

lemma block_offset_in_row:
  assumes "w = 8 * bw" "c < bw"
  shows "block_offset w (r * bw + c) = r * (8 * (w * 3)) + 24 * c"
proof -
  have "w div 8 = bw" using assms(1) by simp
  moreover have "(r * bw + c) div bw = r" "(r * bw + c) mod bw = c"
    using assms(2) by simp_all
  ultimately show ?thesis by (simp add: block_offset_def)
qed

lemma imageDiff_cols:
  assumes st: "at_block st (r * bw) (r * (8 * (w * 3)))" and w: "w = 8 * bw"
  shows "c \<le> bw \<Longrightarrow>
    loop_view (fold (\<lambda>j. imageDiff_block cur (w * 3)) [0..<c] st) =
      fold (block_step cur w) [r * bw..<r * bw + c] (loop_view st) \<and>
    at_block (fold (\<lambda>j. imageDiff_block cur (w * 3)) [0..<c] st) (r * bw + c)
      (r * (8 * (w * 3)) + 24 * c)"
proof (induction c)
  case 0
  show ?case using st by simp
next
  case (Suc c)
  let ?st = "fold (\<lambda>j. imageDiff_block cur (w * 3)) [0..<c] st"
  from Suc have ih: "loop_view ?st = fold (block_step cur w) [r * bw..<r * bw + c] (loop_view st)"
    and at: "at_block ?st (r * bw + c) (r * (8 * (w * 3)) + 24 * c)"
    by simp_all
  from Suc.prems have c: "c < bw" by simp
  note off = block_offset_in_row [OF w c, where r = r]
  from at have at': "at_block ?st (r * bw + c) (block_offset w (r * bw + c))"
    unfolding off .
  have e: "block_offset w (r * bw + c) + 24 = r * (8 * (w * 3)) + 24 * Suc c"
    unfolding off by simp
  have 1: "loop_view (imageDiff_block cur (w * 3) ?st) = block_step cur w (r * bw + c) (loop_view ?st)"
    by (rule imageDiff_block_step(1) [OF at'])
  have 2: "at_block (imageDiff_block cur (w * 3) ?st) (r * bw + Suc c) (r * (8 * (w * 3)) + 24 * Suc c)"
    using imageDiff_block_step(2) [OF at', where cur = cur] unfolding e by simp
  have 3: "[r * bw..<r * bw + Suc c] = [r * bw..<r * bw + c] @ [r * bw + c]"
    by simp
  show ?case
    unfolding fold_upt_Suc 3 fold_append comp_def 1 ih [symmetric] using 2 by simp
qed

lemma loop_view_ptr [simp]:
  "loop_view (st\<lparr>lPtr := a, cPtr := b\<rparr>) = loop_view st"
  by (simp add: loop_view_def)

lemma imageDiff_row_step:
  assumes st: "at_block st (r * bw) (r * (8 * (w * 3)))" and w: "w = 8 * bw"
  shows "loop_view (imageDiff_row cur w (w * 3) st) =
      fold (block_step cur w) [r * bw..<Suc r * bw] (loop_view st)"
    and "at_block (imageDiff_row cur w (w * 3) st) (Suc r * bw) (Suc r * (8 * (w * 3)))"
proof -
  let ?st = "fold (\<lambda>j. imageDiff_block cur (w * 3)) [0..<bw] st"
  have loop: "for_loop 0 w 8 (\<lambda>j. imageDiff_block cur (w * 3)) st = ?st"
    unfolding w by (rule for_loop_by8)
  from imageDiff_cols [OF st w, where c = bw and cur = cur]
  have v: "loop_view ?st = fold (block_step cur w) [r * bw..<r * bw + bw] (loop_view st)"
    and at: "at_block ?st (r * bw + bw) (r * (8 * (w * 3)) + 24 * bw)"
    by simp_all
  show "loop_view (imageDiff_row cur w (w * 3) st) =
      fold (block_step cur w) [r * bw..<Suc r * bw] (loop_view st)"
    by (simp add: imageDiff_row_def Let_def loop v add.commute)
  have rs: "24 * bw = w * 3" using w by simp
  have k: "r * bw + bw = Suc r * bw" by simp
  show "at_block (imageDiff_row cur w (w * 3) st) (Suc r * bw) (Suc r * (8 * (w * 3)))"
    using at unfolding imageDiff_row_def Let_def loop at_block_def rs k by simp
qed

lemma imageDiff_rows:
  assumes st: "at_block st 0 0" and w: "w = 8 * bw"
  shows "loop_view (fold (\<lambda>i. imageDiff_row cur w (w * 3)) [0..<R] st) =
      fold (block_step cur w) [0..<R * bw] (loop_view st) \<and>
    at_block (fold (\<lambda>i. imageDiff_row cur w (w * 3)) [0..<R] st) (R * bw) (R * (8 * (w * 3)))"
proof (induction R)
  case 0
  show ?case using st by simp
next
  case (Suc R)
  let ?st = "fold (\<lambda>i. imageDiff_row cur w (w * 3)) [0..<R] st"
  from Suc have ih: "loop_view ?st = fold (block_step cur w) [0..<R * bw] (loop_view st)"
    and at: "at_block ?st (R * bw) (R * (8 * (w * 3)))"
    by simp_all
  note row = imageDiff_row_step [OF at w, where cur = cur]
  have split: "[0..<Suc R * bw] = [0..<R * bw] @ [R * bw..<Suc R * bw]"
    using upt_add_eq_append [of 0 "R * bw" bw] by (simp add: add.commute)
  have "fold (block_step cur w) [0..<Suc R * bw] (loop_view st) =
      fold (block_step cur w) [R * bw..<Suc R * bw] (loop_view ?st)"
    unfolding split fold_append comp_def ih ..
  with row show ?case
    unfolding fold_upt_Suc by simp
qed

lemma imageDiff_fold:
  assumes w: "w = 8 * bw" and h: "h = 8 * bh"
  shows "imageDiff prev D M cur w h = fold (block_step cur w) [0..<bh * bw] (0, prev, D, M)"
proof -
  let ?st0 = "\<lparr>numSqDiff = 0, mapPos = 0, mapMask = 0x01, lPtr = 0, cPtr = 0,
                  lastImage_m = prev, diffBuf_m = D, diffMap_m = M\<rparr>"
  have st0: "at_block ?st0 0 0" by (simp add: at_block_def)
  have v0: "loop_view ?st0 = (0, prev, D, M)" by (simp add: loop_view_def)
  have loop: "for_loop 0 h 8 (\<lambda>i. imageDiff_row cur w (w * 3)) ?st0 =
      fold (\<lambda>i. imageDiff_row cur w (w * 3)) [0..<bh] ?st0"
    unfolding h by (rule for_loop_by8)
  have "imageDiff prev D M cur w h =
      loop_view (fold (\<lambda>i. imageDiff_row cur w (w * 3)) [0..<bh] ?st0)"
    unfolding imageDiff_def Let_def loop loop_view_def ..
  with imageDiff_rows [OF st0 w, where cur = cur and R = bh] show ?thesis
    by (simp add: v0)
qed

lemma set_bit_byte:
  "i < 8 \<Longrightarrow> bit (word_of_int (uint (b :: byte) OR 2 ^ i) :: byte) j \<longleftrightarrow> bit b j \<or> j = i"
  by (auto simp: bit_simps dest: bit_imp_le_length)

lemma clear_bit_byte:
  "bit (word_of_int (uint (b :: byte) AND NOT (2 ^ i)) :: byte) j \<longleftrightarrow> bit b j \<and> j \<noteq> i"
  by (auto simp: bit_simps dest: bit_imp_le_length)

lemma in_block_coords:
  assumes w: "w = 8 * bw" and bw: "0 < bw" and inb: "in_block w k o'"
  shows "k div bw = (o' div (w * 3)) div 8" and "k mod bw = (o' mod (w * 3)) div 24"
proof -
  let ?rs = "w * 3"
  let ?r = "k div bw" and ?c = "k mod bw"
  have off: "block_offset w k = ?r * (8 * ?rs) + ?c * 24"
    using w by (simp add: block_offset_def)
  from inb obtain i where i: "i < 8" and lo: "block_offset w k + i * ?rs \<le> o'"
    and hi: "o' < block_offset w k + i * ?rs + 24"
    by (auto simp: in_block_def)
  define e where "e = o' - (block_offset w k + i * ?rs)"
  have e: "e < 24" and o': "o' = block_offset w k + i * ?rs + e"
    using lo hi by (simp_all add: e_def)
  have c: "?c < bw" using bw by simp
  then have "24 * ?c + 24 \<le> 24 * bw" by simp
  then have small: "24 * ?c + e < ?rs" using e w by simp
  have o_eq: "o' = (8 * ?r + i) * ?rs + (24 * ?c + e)"
    unfolding o' off by (simp add: algebra_simps)
  have d: "o' div ?rs = 8 * ?r + i" and m: "o' mod ?rs = 24 * ?c + e"
    using small by (simp_all add: o_eq)
  show "k div bw = (o' div ?rs) div 8" unfolding d using i by simp
  show "k mod bw = (o' mod ?rs) div 24" unfolding m using e by simp
qed

lemma in_block_unique:
  assumes "w = 8 * bw" "0 < bw" "in_block w k o'" "in_block w k' o'"
  shows "k = k'"
proof -
  from in_block_coords [OF assms(1,2,3)] in_block_coords [OF assms(1,2,4)]
  have "k div bw = k' div bw" "k mod bw = k' mod bw" by simp_all
  then show ?thesis by (metis div_mult_mod_eq)
qed

lemma block_in_frame:
  assumes w: "w = 8 * bw" and h: "h = 8 * bh" and k: "k < bh * bw"
  shows "block_offset w k + 7 * (w * 3) + 24 \<le> w * h * 3"
proof -
  let ?r = "k div bw" and ?c = "k mod bw"
  from k have bw: "0 < bw" by (cases bw) simp_all
  have r: "?r < bh" using k bw by (simp add: less_mult_imp_div_less)
  have c: "?c < bw" using bw by simp
  have off: "block_offset w k = ?r * (8 * (w * 3)) + ?c * 24"
    using w by (simp add: block_offset_def)
  from c have "24 * ?c + 24 \<le> w * 3" using w by simp
  then have "block_offset w k + 7 * (w * 3) + 24 \<le> Suc ?r * (8 * (w * 3))"
    unfolding off by simp
  also have "\<dots> \<le> bh * (8 * (w * 3))"
    using r by (intro mult_le_mono1) simp
  also have "\<dots> = w * h * 3" using h by simp
  finally show ?thesis .
qed

lemma in_block_in_frame:
  assumes "w = 8 * bw" "h = 8 * bh" "k < bh * bw" "in_block w k o'"
  shows "o' < w * h * 3"
proof -
  from assms(4) obtain i where "i < 8" and hi: "o' < block_offset w k + i * (w * 3) + 24"
    by (auto simp: in_block_def)
  then have "i * (w * 3) \<le> 7 * (w * 3)" by (intro mult_le_mono1) simp
  with hi block_in_frame [OF assms(1-3)] show ?thesis by linarith
qed

lemma block_diffs_cong:
  assumes "\<And>o'. in_block w k o' \<Longrightarrow> L' ! o' = L ! o'"
  shows "block_diffs L' (block_offset w k) cur (block_offset w k) (w * 3) =
         block_diffs L (block_offset w k) cur (block_offset w k) (w * 3)"
proof -
  have same: "L' ! (block_offset w k + i * (w * 3) + e) = L ! (block_offset w k + i * (w * 3) + e)"
    if "i < 8" "e < 24" for i e
    using that by (intro assms) (auto simp: in_block_def)
  have "pixel_diff L' (block_offset w k + i * (w * 3) + 3 * j) cur q =
      pixel_diff L (block_offset w k + i * (w * 3) + 3 * j) cur q" if "i < 8" "j < 8" for i j q
  proof -
    from that have "3 * j < 24" "3 * j + 1 < 24" "3 * j + 2 < 24" by simp_all
    from same [OF that(1) this(1)] same [OF that(1) this(2)] same [OF that(1) this(3)]
    show ?thesis by (simp add: pixel_diff_def chan_diff_def add.assoc)
  qed
  then show ?thesis
    unfolding block_diffs_def
    by (intro arg_cong [where f = concat] map_cong refl) simp
qed

lemma squareDiff_cong:
  assumes "\<And>o'. in_block w k o' \<Longrightarrow> L' ! o' = L ! o'"
  shows "squareDiff L' (block_offset w k) cur (block_offset w k) (w * 3) =
         squareDiff L (block_offset w k) cur (block_offset w k) (w * 3)"
  by (simp add: squareDiff_def squareDiff_scan_cases block_diffs_cong [OF assms])

lemma same_index: "j div 8 = m div 8 \<Longrightarrow> j mod 8 = m mod 8 \<longleftrightarrow> j = (m::nat)"
  by (metis div_mult_mod_eq)

lemma bitmap_set:
  assumes "m div 8 < length M"
  shows "bit ((M :: byte list)[m div 8 := word_of_int (uint (M ! (m div 8)) OR 2 ^ (m mod 8))] ! (j div 8))
           (j mod 8) \<longleftrightarrow>
         j = m \<or> bit (M ! (j div 8)) (j mod 8)"
proof (cases "j div 8 = m div 8")
  case True
  with assms same_index [OF True] show ?thesis
    by (auto simp: set_bit_byte)
next
  case False
  then have "j \<noteq> m" by auto
  with False show ?thesis by simp
qed

lemma bitmap_clear:
  assumes "m div 8 < length M"
  shows "bit ((M :: byte list)[m div 8 := word_of_int (uint (M ! (m div 8)) AND NOT (2 ^ (m mod 8)))] ! (j div 8))
           (j mod 8) \<longleftrightarrow>
         j \<noteq> m \<and> bit (M ! (j div 8)) (j mod 8)"
proof (cases "j div 8 = m div 8")
  case True
  with assms same_index [OF True] show ?thesis
    by (auto simp: clear_bit_byte)
next
  case False
  then have "j \<noteq> m" by auto
  with False show ?thesis by simp
qed

lemma length_packed: "length (packed cur w ks) = 192 * length ks"
  by (simp add: packed_def length_concat comp_def length_block_bytes sum_list_triv)

lemma dirty_list_Suc:
  "dirty_list prev cur w (Suc m) =
     (if dirty_block prev cur w m then dirty_list prev cur w m @ [m] else dirty_list prev cur w m)"
  by (simp add: dirty_list_def)

lemma length_dirty_list: "length (dirty_list prev cur w m) \<le> m"
  using length_filter_le [of "dirty_block prev cur w" "[0..<m]"] by (simp add: dirty_list_def)

lemma diff_inv_step:
  assumes w: "w = 8 * bw" and h: "h = 8 * bh" and m: "m < bh * bw"
    and lenp: "length prev = w * h * 3"
    and lenD: "192 * (bh * bw) \<le> length D0"
    and lenM: "bh * bw \<le> 8 * length M0"
    and inv: "diff_inv prev cur w D0 M0 m st"
  shows "diff_inv prev cur w D0 M0 (Suc m) (block_step cur w m st)"
proof -
  obtain n L D M where st: "st = (n, L, D, M)" by (cases st)
  let ?p = "block_offset w m" and ?rs = "w * 3"
  let ?dl = "dirty_list prev cur w m"
  from m have bw: "0 < bw" by (cases bw) simp_all
  from inv have n: "n = length ?dl" and lenL: "length L = length prev"
    and L: "\<And>o'. o' < length prev \<Longrightarrow> L ! o' =
        (if \<exists>k<m. dirty_block prev cur w k \<and> in_block w k o' then cur ! o' else prev ! o')"
    and D: "D = overwrite D0 0 (packed cur w ?dl)"
    and lenMM: "length M = length M0"
    and M: "\<And>j. j < 8 * length M0 \<Longrightarrow> bit (M ! (j div 8)) (j mod 8) =
        (if j < m then dirty_block prev cur w j else bit (M0 ! (j div 8)) (j mod 8))"
    by (simp_all add: diff_inv_def st)
  have inb: "?p + 7 * ?rs + 24 \<le> length L"
    using block_in_frame [OF w h m] by (simp add: lenL lenp)
  have same: "L ! o' = prev ! o'" if "in_block w m o'" for o'
  proof -
    from in_block_in_frame [OF w h m that] have o': "o' < length prev" by (simp add: lenp)
    have "\<not> (\<exists>k<m. dirty_block prev cur w k \<and> in_block w k o')"
      using in_block_unique [OF w bw _ that] by auto
    with L [OF o'] show ?thesis by simp
  qed
  have "squareDiff L ?p cur ?p ?rs = squareDiff prev ?p cur ?p ?rs"
    by (rule squareDiff_cong) (rule same)
  then have sd: "squareDiff L ?p cur ?p ?rs \<noteq> 0 \<longleftrightarrow> dirty_block prev cur w m"
    by (simp add: dirty_block_def)
  have mM: "m div 8 < length M"
    using m lenM lenMM by (simp add: less_mult_imp_div_less mult.commute)
  have nm: "n \<le> m" unfolding n by (rule length_dirty_list)
  have inblk: "(\<exists>i<8. ?p + i * ?rs \<le> o' \<and> o' < ?p + i * ?rs + 24) \<longleftrightarrow> in_block w m o'" for o'
    by (simp add: in_block_def)
  show ?thesis
  proof (cases "dirty_block prev cur w m")
    case True
    have bs: "block_step cur w m st =
        (n + 1, copySquare L ?p cur ?p ?rs, putSquare D (8 * 8 * 3 * n) cur ?p ?rs,
         M[m div 8 := word_of_int (uint (M ! (m div 8)) OR 2 ^ (m mod 8))])"
      using True sd by (simp add: block_step_def st)
    have lenD': "length D = length D0"
      unfolding D using lenD nm m
      by (intro length_overwrite) (simp add: length_packed n [symmetric])
    have "192 * Suc n \<le> 192 * (bh * bw)" using nm m by simp
    with lenD have room: "192 * n + 192 \<le> length D0" by simp
    have put: "putSquare D (8 * 8 * 3 * n) cur ?p ?rs =
        overwrite D0 0 (packed cur w (dirty_list prev cur w (Suc m)))"
    proof -
      have "putSquare D (8 * 8 * 3 * n) cur ?p ?rs = overwrite D (192 * n) (block_bytes cur ?rs ?p)"
        using putSquare_overwrite [of "192 * n" D cur ?p ?rs] room lenD' by simp
      also have "\<dots> = overwrite D0 0 (packed cur w ?dl @ block_bytes cur ?rs ?p)"
        unfolding D
        using overwrite_append [where d = 0 and ys = "packed cur w ?dl"
            and zs = "block_bytes cur ?rs ?p" and xs = D0] room
        by (simp add: length_packed length_block_bytes n [symmetric])
      also have "packed cur w ?dl @ block_bytes cur ?rs ?p = packed cur w (dirty_list prev cur w (Suc m))"
        using True by (simp add: dirty_list_Suc packed_def)
      finally show ?thesis .
    qed
    have cpl: "length (copySquare L ?p cur ?p ?rs) = length prev"
      using copySquare_nth(1) [OF inb] lenL by simp
    have cpn: "copySquare L ?p cur ?p ?rs ! o' =
        (if \<exists>k<Suc m. dirty_block prev cur w k \<and> in_block w k o' then cur ! o' else prev ! o')"
      if o': "o' < length prev" for o'
    proof -
      have "copySquare L ?p cur ?p ?rs ! o' = (if in_block w m o' then cur ! o' else L ! o')"
        using copySquare_nth(2) [OF inb, of o' cur] o' lenL by (simp add: inblk)
      with L [OF o'] True show ?thesis
        by (auto simp: less_Suc_eq)
    qed
    have bits: "bit (M[m div 8 := word_of_int (uint (M ! (m div 8)) OR 2 ^ (m mod 8))] ! (j div 8)) (j mod 8) =
        (if j < Suc m then dirty_block prev cur w j else bit (M0 ! (j div 8)) (j mod 8))"
      if "j < 8 * length M0" for j
      unfolding bitmap_set [OF mM] using M [OF that] True by (auto simp: less_Suc_eq)
    show ?thesis
      unfolding bs diff_inv_def prod.case
      using True cpl cpn put bits by (simp add: dirty_list_Suc n lenMM)
  next
    case False
    have bs: "block_step cur w m st =
        (n, L, D, M[m div 8 := word_of_int (uint (M ! (m div 8)) AND NOT (2 ^ (m mod 8)))])"
      using False sd by (simp add: block_step_def st)
    have Ln: "L ! o' =
        (if \<exists>k<Suc m. dirty_block prev cur w k \<and> in_block w k o' then cur ! o' else prev ! o')"
      if o': "o' < length prev" for o'
      using L [OF o'] False by (auto simp: less_Suc_eq)
    have bits: "bit (M[m div 8 := word_of_int (uint (M ! (m div 8)) AND NOT (2 ^ (m mod 8)))] ! (j div 8)) (j mod 8) =
        (if j < Suc m then dirty_block prev cur w j else bit (M0 ! (j div 8)) (j mod 8))"
      if "j < 8 * length M0" for j
      unfolding bitmap_clear [OF mM] using M [OF that] False by (auto simp: less_Suc_eq)
    show ?thesis
      unfolding bs diff_inv_def prod.case
      using False Ln bits by (simp add: dirty_list_Suc n lenMM lenL D)
  qed
qed

lemma diff_inv_fold:
  assumes w: "w = 8 * bw" and h: "h = 8 * bh"
    and lenp: "length prev = w * h * 3"
    and lenD: "192 * (bh * bw) \<le> length D0"
    and lenM: "bh * bw \<le> 8 * length M0"
  shows "m \<le> bh * bw \<Longrightarrow>
    diff_inv prev cur w D0 M0 m (fold (block_step cur w) [0..<m] (0, prev, D0, M0))"
proof (induction m)
  case 0
  show ?case by (simp add: diff_inv_def dirty_list_def packed_def overwrite_def)
next
  case (Suc m)
  then have "m < bh * bw" and "diff_inv prev cur w D0 M0 m (fold (block_step cur w) [0..<m] (0, prev, D0, M0))"
    by simp_all
  from diff_inv_step [OF w h this(1) lenp lenD lenM this(2)] show ?case
    unfolding fold_upt_Suc .
qed

lemma imageDiff_inv:
  assumes w: "w = 8 * bw" and h: "h = 8 * bh"
    and lenp: "length prev = w * h * 3"
    and lenD: "192 * (bh * bw) \<le> length D0"
    and lenM: "bh * bw \<le> 8 * length M0"
  shows "diff_inv prev cur w D0 M0 (bh * bw) (imageDiff prev D0 M0 cur w h)"
  unfolding imageDiff_fold [OF w h]
  by (rule diff_inv_fold [OF w h lenp lenD lenM]) simp

lemma block_bytes_cong:
  assumes "\<And>o'. in_block w k o' \<Longrightarrow> L' ! o' = L ! o'"
  shows "block_bytes L' (w * 3) (block_offset w k) = block_bytes L (w * 3) (block_offset w k)"
proof -
  have same: "L' ! (block_offset w k + i * (w * 3) + e) = L ! (block_offset w k + i * (w * 3) + e)"
    if "i < 8" "e < 24" for i e
    using that by (intro assms) (auto simp: in_block_def)
  show ?thesis
    unfolding block_bytes_def row_bytes_def
    by (intro arg_cong [where f = concat] map_cong refl) (simp add: same)
qed

lemma dirty_block_sum:
  "dirty_block prev cur w k \<longleftrightarrow>
     running_sum prev (block_offset w k) cur (block_offset w k) (w * 3) 64 > 192"
proof -
  obtain r n where rn: "squareDiff_scan prev (block_offset w k) cur (block_offset w k) (w * 3) = (r, n)"
    by (cases "squareDiff_scan prev (block_offset w k) cur (block_offset w k) (w * 3)")
  have T: "MIN_SQDIFF = 192" by (simp add: MIN_SQDIFF_def)
  let ?vs = "block_diffs prev (block_offset w k) cur (block_offset w k) (w * 3)"
  have len: "length ?vs = 64" by (rule length_block_diffs)
  show ?thesis
  proof (cases "scan_vals 0 0 ?vs")
    case (Inl j)
    from scan_vals_Inl [OF Inl] have "sum_list (take j ?vs) > 192" by (simp add: T)
    moreover have "sum_list (take j ?vs) \<le> sum_list ?vs"
      by (rule sum_list_take_mono) (rule block_diffs_nonneg)
    ultimately show ?thesis
      using Inl by (simp add: dirty_block_def squareDiff_def squareDiff_scan_cases running_sum_def len)
  next
    case (Inr dk)
    obtain d j where dk: "dk = (d, j)" by (cases dk)
    from scan_vals_Inr [OF Inr [unfolded dk]]
    have "\<forall>m. 1 \<le> m \<and> m \<le> length ?vs \<longrightarrow> 0 + sum_list (take m ?vs) \<le> MIN_SQDIFF"
      by blast
    from this [THEN spec, of 64] have "sum_list (take 64 ?vs) \<le> 192"
      by (simp add: T len)
    then show ?thesis
      using Inr dk by (simp add: dirty_block_def squareDiff_def squareDiff_scan_cases running_sum_def len)
  qed
qed


text \<open>
  C4. One run of the differencer on a frame of \<open>w * h * 3\<close> bytes, \<open>w\<close> and \<open>h\<close> multiples
  of 8, with room for every block in the diff buffer and a bit for every block in the bitmap
  (as for 240x320, 230400 bytes and 150 bytes). A block is dirty when \<open>squareDiff\<close> of the
  previous and the current frame is non-zero there, that is when its summed difference
  exceeds 192. The result: the count of dirty blocks; the previous-frame buffer with exactly
  the bytes of the dirty blocks replaced by those of the current frame, every other byte and
  so every clean block untouched; the diff buffer starting with the pixels of the dirty
  blocks, block after block in row-major block order, and unchanged after them; the bitmap
  with the bit of every block rewritten, set for a dirty block and cleared for a clean one.
\<close>

theorem imageDiff_effect:
  assumes w: "w = 8 * bw" and h: "h = 8 * bh"
    and lenp: "length prev = w * h * 3"
    and lenD: "192 * (bh * bw) \<le> length D0"
    and lenM: "bh * bw \<le> 8 * length M0"
    and res: "imageDiff prev D0 M0 cur w h = (n, prev', D', M')"
  shows "n = length (dirty_list prev cur w (bh * bw)) \<and>
         (\<forall>k. dirty_block prev cur w k \<longleftrightarrow>
              running_sum prev (block_offset w k) cur (block_offset w k) (w * 3) 64 > 192) \<and>
         length prev' = length prev \<and>
         (\<forall>o'<length prev. prev' ! o' =
            (if \<exists>k<bh * bw. dirty_block prev cur w k \<and> in_block w k o' then cur ! o' else prev ! o')) \<and>
         (\<forall>k<bh * bw. block_bytes prev' (w * 3) (block_offset w k) =
            (if dirty_block prev cur w k then block_bytes cur (w * 3) (block_offset w k)
             else block_bytes prev (w * 3) (block_offset w k))) \<and>
         length D' = length D0 \<and>
         take (192 * n) D' = packed cur w (dirty_list prev cur w (bh * bw)) \<and>
         drop (192 * n) D' = drop (192 * n) D0 \<and>
         length M' = length M0 \<and>
         (\<forall>k<bh * bw. bit (M' ! (k div 8)) (k mod 8) \<longleftrightarrow> dirty_block prev cur w k)"
proof -
  let ?nb = "bh * bw"
  let ?dl = "dirty_list prev cur w ?nb"
  have "diff_inv prev cur w D0 M0 ?nb (n, prev', D', M')"
    using imageDiff_inv [OF w h lenp lenD lenM, where cur = cur] unfolding res .
  note inv = this [unfolded diff_inv_def prod.case]
  note n = inv [THEN conjunct1]
  note lenL = inv [THEN conjunct2, THEN conjunct1]
  note Lq = inv [THEN conjunct2, THEN conjunct2, THEN conjunct1]
  note D = inv [THEN conjunct2, THEN conjunct2, THEN conjunct2, THEN conjunct1]
  note lenMM = inv [THEN conjunct2, THEN conjunct2, THEN conjunct2, THEN conjunct2, THEN conjunct1]
  note Mq = inv [THEN conjunct2, THEN conjunct2, THEN conjunct2, THEN conjunct2, THEN conjunct2]
  have L: "prev' ! o' =
      (if \<exists>k<?nb. dirty_block prev cur w k \<and> in_block w k o' then cur ! o' else prev ! o')"
    if "o' < length prev" for o'
    using Lq that by blast
  have M: "bit (M' ! (j div 8)) (j mod 8) =
      (if j < ?nb then dirty_block prev cur w j else bit (M0 ! (j div 8)) (j mod 8))"
    if "j < 8 * length M0" for j
    using Mq that by blast
  have "192 * length ?dl \<le> 192 * ?nb"
    using length_dirty_list [of prev cur w ?nb] by simp
  with lenD have room: "length (packed cur w ?dl) \<le> length D0"
    unfolding length_packed by linarith
  have lp: "length (packed cur w ?dl) = 192 * n"
    by (simp add: length_packed n)
  have blocks: "block_bytes prev' (w * 3) (block_offset w k) =
      (if dirty_block prev cur w k then block_bytes cur (w * 3) (block_offset w k)
       else block_bytes prev (w * 3) (block_offset w k))" if k: "k < ?nb" for k
  proof -
    from k have bw: "0 < bw" by (cases bw) simp_all
    have at: "prev' ! o' = (if dirty_block prev cur w k then cur ! o' else prev ! o')"
      if "in_block w k o'" for o'
    proof -
      from in_block_in_frame [OF w h k that] have o': "o' < length prev" by (simp add: lenp)
      have "j = k" if "in_block w j o'" for j
        using in_block_unique [OF w bw that \<open>in_block w k o'\<close>] .
      then have "(\<exists>j<?nb. dirty_block prev cur w j \<and> in_block w j o') \<longleftrightarrow> dirty_block prev cur w k"
        using \<open>in_block w k o'\<close> k by blast
      with L [OF o'] show ?thesis by simp
    qed
    show ?thesis
    proof (cases "dirty_block prev cur w k")
      case True
      with at have "\<And>o'. in_block w k o' \<Longrightarrow> prev' ! o' = cur ! o'" by simp
      from block_bytes_cong [OF this] True show ?thesis by simp
    next
      case False
      with at have "\<And>o'. in_block w k o' \<Longrightarrow> prev' ! o' = prev ! o'" by simp
      from block_bytes_cong [OF this] False show ?thesis by simp
    qed
  qed
  have bits: "bit (M' ! (k div 8)) (k mod 8) \<longleftrightarrow> dirty_block prev cur w k" if "k < ?nb" for k
  proof -
    from that lenM have "k < 8 * length M0" by linarith
    from M [OF this] that show ?thesis by simp
  qed
  have "length D' = length D0"
    unfolding D using room by (intro length_overwrite) simp
  moreover have "take (192 * n) D' = packed cur w ?dl"
    unfolding D overwrite_def lp [symmetric] by simp
  moreover have "drop (192 * n) D' = drop (192 * n) D0"
    unfolding D overwrite_def lp [symmetric] by simp
  ultimately have Dfacts: "length D' = length D0 \<and> take (192 * n) D' = packed cur w ?dl \<and>
      drop (192 * n) D' = drop (192 * n) D0"
    by simp
  have Lfacts: "\<forall>o'<length prev. prev' ! o' =
      (if \<exists>k<?nb. dirty_block prev cur w k \<and> in_block w k o' then cur ! o' else prev ! o')"
    using L by simp
  have Bfacts: "\<forall>k<?nb. block_bytes prev' (w * 3) (block_offset w k) =
      (if dirty_block prev cur w k then block_bytes cur (w * 3) (block_offset w k)
       else block_bytes prev (w * 3) (block_offset w k))"
    using blocks by simp
  have Mfacts: "\<forall>k<?nb. bit (M' ! (k div 8)) (k mod 8) \<longleftrightarrow> dirty_block prev cur w k"
    using bits by simp
  have Sfacts: "\<forall>k. dirty_block prev cur w k \<longleftrightarrow>
      running_sum prev (block_offset w k) cur (block_offset w k) (w * 3) 64 > 192"
    by (simp add: dirty_block_sum)
  show ?thesis
    apply (intro conjI)
             apply (rule n)
            apply (rule Sfacts)
           apply (rule lenL)
          apply (rule Lfacts)
         apply (rule Bfacts)
        apply (rule Dfacts [THEN conjunct1])
       apply (rule Dfacts [THEN conjunct2, THEN conjunct1])
      apply (rule Dfacts [THEN conjunct2, THEN conjunct2])
     apply (rule lenMM)
    apply (rule Mfacts)
    done
qed

section \<open>Sessions and the forced refresh\<close>

lemma scan_vals_zeros:
  "d \<le> MIN_SQDIFF \<Longrightarrow> \<forall>v\<in>set vs. v = 0 \<Longrightarrow> scan_vals d s vs = Inr (d, s + length vs)"
  by (induction vs arbitrary: s) simp_all

lemma squareDiff_same: "squareDiff b p b p rs = 0"
proof -
  have "\<forall>v\<in>set (block_diffs b p b p rs). v = 0"
    by (auto simp: block_diffs_def pixel_diff_def chan_diff_def)
  from scan_vals_zeros [OF _ this, of 0 0] show ?thesis
    by (simp add: squareDiff_def squareDiff_scan_cases MIN_SQDIFF_def)
qed

lemma fold_block_step_same:
  "\<exists>M'. fold (block_step f w) [0..<m] (0, f, D, M) = (0, f, D, M') \<and> length M' = length M"
proof (induction m)
  case 0
  show ?case by simp
next
  case (Suc m)
  then obtain M' where "fold (block_step f w) [0..<m] (0, f, D, M) = (0, f, D, M')"
    and "length M' = length M" by blast
  then show ?case
    unfolding fold_upt_Suc by (simp add: block_step_def squareDiff_same)
qed

lemma imageDiff_same:
  assumes "w = 8 * bw" "h = 8 * bh"
  shows "\<exists>M'. imageDiff f D M f w h = (0, f, D, M') \<and> length M' = length M"
  unfolding imageDiff_fold [OF assms] by (rule fold_block_step_same)






lemma first_call:
  assumes s1: "s1 = snd (processFrameData jpeg (240, 320) env (Some black_frame) initial_state)"
  shows "lastFrameMode s1 = FM_FULL" and "lastImage s1 = Some black_frame"
    and "forceFrameCount s1 = 0" and "checker s1 = 0"
    and "diffBuf s1 = diffBuf initial_state" and "diffMap s1 = diffMap initial_state"
proof -
  have none: "lastImage initial_state = None" by (simp add: initial_state_def)
  note f = pfd_first [OF none s1]
  note c = pfd_counters [OF s1]
  show "lastFrameMode s1 = FM_FULL" by (rule f(1))
  show "lastImage s1 = Some black_frame" using f(2) by (simp add: black_frame_def)
  show "forceFrameCount s1 = 0" using c(2) f(1) by simp
  show "checker s1 = 0" using c(3) f(1) by (simp add: modes_neq initial_state_def)
  show "diffBuf s1 = diffBuf initial_state" by (rule f(3))
  show "diffMap s1 = diffMap initial_state" by (rule f(4))
qed









section \<open>Frames with known dirty blocks\<close>

lemma block_diffs_cong_cur:
  assumes "\<And>o'. in_block w k o' \<Longrightarrow> C' ! o' = C ! o'"
  shows "block_diffs L (block_offset w k) C' (block_offset w k) (w * 3) =
         block_diffs L (block_offset w k) C (block_offset w k) (w * 3)"
proof -
  have same: "C' ! (block_offset w k + i * (w * 3) + e) = C ! (block_offset w k + i * (w * 3) + e)"
    if "i < 8" "e < 24" for i e
    using that by (intro assms) (auto simp: in_block_def)
  have "pixel_diff L q C' (block_offset w k + i * (w * 3) + 3 * j) =
      pixel_diff L q C (block_offset w k + i * (w * 3) + 3 * j)" if "i < 8" "j < 8" for i j q
  proof -
    from that have "3 * j < 24" "3 * j + 1 < 24" "3 * j + 2 < 24" by simp_all
    from same [OF that(1) this(1)] same [OF that(1) this(2)] same [OF that(1) this(3)]
    show ?thesis by (simp add: pixel_diff_def chan_diff_def add.assoc)
  qed
  then show ?thesis
    unfolding block_diffs_def
    by (intro arg_cong [where f = concat] map_cong refl) simp
qed

lemma clean_when_equal:
  assumes "\<And>o'. in_block w k o' \<Longrightarrow> cur ! o' = prev ! o'"
  shows "\<not> dirty_block prev cur w k"
proof -
  have "squareDiff prev (block_offset w k) cur (block_offset w k) (w * 3) =
      squareDiff prev (block_offset w k) prev (block_offset w k) (w * 3)"
    by (simp add: squareDiff_def squareDiff_scan_cases block_diffs_cong_cur [OF assms])
  then show ?thesis by (simp add: dirty_block_def squareDiff_same)
qed

lemma block_diffs_first:
  "\<exists>vs. block_diffs b1 p b2 p rs = pixel_diff b1 p b2 p # vs"
  by (simp add: block_diffs_def upt_rec [of 0 8])

lemma dirty_first_pixel:
  assumes "pixel_diff prev (block_offset w k) cur (block_offset w k) > 192"
  shows "dirty_block prev cur w k"
proof -
  from block_diffs_first obtain vs where
    "block_diffs prev (block_offset w k) cur (block_offset w k) (w * 3) =
       pixel_diff prev (block_offset w k) cur (block_offset w k) # vs" by blast
  with assms show ?thesis
    by (simp add: dirty_block_def squareDiff_def squareDiff_scan_cases MIN_SQDIFF_def)
qed

lemma in_block_cover:
  assumes w: "w = 8 * bw" and h: "h = 8 * bh" and o': "o' < w * h * 3"
  shows "\<exists>k<bh * bw. in_block w k o'"
proof -
  let ?rs = "w * 3"
  from o' have bw: "0 < bw" using w by (cases bw) simp_all
  have rs: "?rs = 24 * bw" using w by simp
  define y where "y = o' div ?rs"
  define x where "x = o' mod ?rs"
  have o_eq: "o' = y * ?rs + x" unfolding y_def x_def by (rule div_mult_mod_eq [symmetric])
  have x: "x < ?rs" using bw w by (simp add: x_def)
  have "o' < h * ?rs" using o' by (simp add: mult.commute mult.left_commute)
  then have y: "y < h" unfolding y_def using bw rs by (simp add: less_mult_imp_div_less)
  define r where "r = y div 8"
  define i where "i = y mod 8"
  define c where "c = x div 24"
  define e where "e = x mod 24"
  have r: "r < bh" using y h by (simp add: r_def)
  have i: "i < 8" by (simp add: i_def)
  have c: "c < bw" using x rs by (simp add: c_def less_mult_imp_div_less mult.commute)
  have e: "e < 24" by (simp add: e_def)
  have y_eq: "y = 8 * r + i" unfolding r_def i_def by (rule mult_div_mod_eq [symmetric])
  have x_eq: "x = 24 * c + e" unfolding c_def e_def by (rule mult_div_mod_eq [symmetric])
  have k: "r * bw + c < bh * bw"
  proof -
    have "r * bw + c < Suc r * bw" using c by simp
    also have "\<dots> \<le> bh * bw" using r by (intro mult_le_mono1) simp
    finally show ?thesis .
  qed
  have off: "block_offset w (r * bw + c) = r * (8 * ?rs) + 24 * c"
    by (rule block_offset_in_row [OF w c])
  have "o' = block_offset w (r * bw + c) + i * ?rs + e"
    unfolding off o_eq y_eq x_eq by (simp add: algebra_simps)
  with i e have "in_block w (r * bw + c) o'"
    unfolding in_block_def by (intro exI [of _ i]) simp
  with k show ?thesis by blast
qed

lemma imageDiff_shape:
  assumes w: "w = 8 * bw" and h: "h = 8 * bh"
    and lenp: "length prev = w * h * 3"
    and lenD: "192 * (bh * bw) \<le> length D0"
    and lenM: "bh * bw \<le> 8 * length M0"
  shows "\<exists>prev' D' M'. imageDiff prev D0 M0 cur w h =
           (length (dirty_list prev cur w (bh * bw)), prev', D', M') \<and>
         length prev' = length prev \<and> length D' = length D0 \<and> length M' = length M0 \<and>
         (\<forall>o'<length prev. prev' ! o' =
            (if \<exists>k<bh * bw. dirty_block prev cur w k \<and> in_block w k o' then cur ! o' else prev ! o'))"
proof -
  obtain n prev' D' M' where res: "imageDiff prev D0 M0 cur w h = (n, prev', D', M')"
    by (metis prod_cases4)
  have "diff_inv prev cur w D0 M0 (bh * bw) (n, prev', D', M')"
    using imageDiff_inv [OF w h lenp lenD lenM, where cur = cur] unfolding res .
  note inv = this [unfolded diff_inv_def prod.case]
  note n = inv [THEN conjunct1]
  note lenL = inv [THEN conjunct2, THEN conjunct1]
  note Lq = inv [THEN conjunct2, THEN conjunct2, THEN conjunct1]
  note D = inv [THEN conjunct2, THEN conjunct2, THEN conjunct2, THEN conjunct1]
  note lenMM = inv [THEN conjunct2, THEN conjunct2, THEN conjunct2, THEN conjunct2, THEN conjunct1]
  have "192 * length (dirty_list prev cur w (bh * bw)) \<le> 192 * (bh * bw)"
    using length_dirty_list [of prev cur w "bh * bw"] by simp
  with lenD have "0 + length (packed cur w (dirty_list prev cur w (bh * bw))) \<le> length D0"
    unfolding length_packed by linarith
  then have lenD': "length D' = length D0"
    unfolding D by (rule length_overwrite)
  show ?thesis
    unfolding res using n lenL lenD' lenMM Lq by blast
qed

lemma imageDiff_all_dirty:
  assumes w: "w = 8 * bw" and h: "h = 8 * bh"
    and lenp: "length prev = w * h * 3" and lenc: "length cur = w * h * 3"
    and lenD: "192 * (bh * bw) \<le> length D0"
    and lenM: "bh * bw \<le> 8 * length M0"
    and all: "\<And>k. k < bh * bw \<Longrightarrow> dirty_block prev cur w k"
  shows "\<exists>D' M'. imageDiff prev D0 M0 cur w h = (bh * bw, cur, D', M') \<and>
         length D' = length D0 \<and> length M' = length M0"
proof -
  from imageDiff_shape [OF w h lenp lenD lenM, of cur] obtain prev' D' M' where
    res: "imageDiff prev D0 M0 cur w h = (length (dirty_list prev cur w (bh * bw)), prev', D', M')"
    and lens: "length prev' = length prev" "length D' = length D0" "length M' = length M0"
    and nth: "\<And>o'. o' < length prev \<Longrightarrow> prev' ! o' =
            (if \<exists>k<bh * bw. dirty_block prev cur w k \<and> in_block w k o' then cur ! o' else prev ! o')"
    by blast
  have "dirty_list prev cur w (bh * bw) = [0..<bh * bw]"
    unfolding dirty_list_def using all by (intro filter_True) simp
  then have n: "length (dirty_list prev cur w (bh * bw)) = bh * bw" by simp
  have "prev' = cur"
  proof (rule nth_equalityI)
    show "length prev' = length cur" by (simp add: lens lenp lenc)
    fix o' assume "o' < length prev'"
    then have o': "o' < w * h * 3" by (simp add: lens lenp)
    from in_block_cover [OF w h o'] all have "\<exists>k<bh * bw. dirty_block prev cur w k \<and> in_block w k o'"
      by blast
    with nth [of o'] o' show "prev' ! o' = cur ! o'" by (simp add: lenp)
  qed
  with res n lens show ?thesis by simp
qed

lemma frame_lengths:
  "length black_frame = 240 * 320 * 3" "length white_frame = 240 * 320 * 3"
  "length spot_frame = 240 * 320 * 3"
  by (simp_all add: black_frame_def white_frame_def spot_frame_def)

lemma initial_buffers:
  "192 * (40 * 30) \<le> length (diffBuf initial_state)"
  "40 * 30 \<le> 8 * length (diffMap initial_state)"
  "length (diffMap initial_state) = 150"
  by (simp_all add: initial_state_def)

lemma block_offset_bound:
  assumes "k < 40 * 30"
  shows "block_offset 240 k + 2 < 230400"
  using block_in_frame [where w = 240 and bw = 30 and h = 320 and bh = 40 and k = k] assms by simp

lemma black_white_dirty:
  assumes "k < 40 * 30"
  shows "dirty_block black_frame white_frame 240 k" and "dirty_block white_frame black_frame 240 k"
proof -
  note b = block_offset_bound [OF assms]
  then have "block_offset 240 k < 230400" "block_offset 240 k + 1 < 230400" by simp_all
  with b have "pixel_diff black_frame (block_offset 240 k) white_frame (block_offset 240 k) = 765"
    "pixel_diff white_frame (block_offset 240 k) black_frame (block_offset 240 k) = 765"
    by (simp_all add: pixel_diff_def chan_diff_def black_frame_def white_frame_def)
  then show "dirty_block black_frame white_frame 240 k" "dirty_block white_frame black_frame 240 k"
    by (simp_all add: dirty_first_pixel)
qed

lemma imageDiff_black_white:
  assumes "192 * (40 * 30) \<le> length D0" "40 * 30 \<le> 8 * length M0"
  shows "\<exists>D' M'. imageDiff black_frame D0 M0 white_frame 240 320 = (1200, white_frame, D', M') \<and>
         length D' = length D0 \<and> length M' = length M0"
    and "\<exists>D' M'. imageDiff white_frame D0 M0 black_frame 240 320 = (1200, black_frame, D', M') \<and>
         length D' = length D0 \<and> length M' = length M0"
  using imageDiff_all_dirty [where w = 240 and bw = 30 and h = 320 and bh = 40
      and prev = black_frame and cur = white_frame and ?D0.0 = D0 and ?M0.0 = M0]
    imageDiff_all_dirty [where w = 240 and bw = 30 and h = 320 and bh = 40
      and prev = white_frame and cur = black_frame and ?D0.0 = D0 and ?M0.0 = M0]
    assms black_white_dirty frame_lengths
  by simp_all

lemma spot_nth:
  "o' < 230400 \<Longrightarrow> spot_frame ! o' = (if o' < 3 then 255 else black_frame ! o')"
  by (auto simp: spot_frame_def black_frame_def nth_list_update)

lemma filter_zero: "0 < n \<Longrightarrow> filter (\<lambda>k. k = (0::nat)) [0..<n] = [0]"
  by (induction n) auto

lemma spot_dirty:
  assumes "k < 40 * 30"
  shows "dirty_block black_frame spot_frame 240 k \<longleftrightarrow> k = 0"
proof (cases "k = 0")
  case True
  have "block_offset 240 0 = 0" by (simp add: block_offset_def)
  moreover have "pixel_diff black_frame 0 spot_frame 0 = 765"
    unfolding pixel_diff_def chan_diff_def by (simp add: spot_nth) (simp add: black_frame_def)
  ultimately have "dirty_block black_frame spot_frame 240 0"
    by (intro dirty_first_pixel) simp
  with True show ?thesis by simp
next
  case False
  have "spot_frame ! o' = black_frame ! o'" if inb: "in_block 240 k o'" for o'
  proof -
    have "\<not> o' < 3"
    proof
      assume "o' < 3"
      then have "in_block 240 0 o'"
        unfolding in_block_def by (intro exI [of _ 0]) (simp add: block_offset_def)
      from in_block_unique [where w = 240 and bw = 30, OF _ _ inb this] False show False by simp
    qed
    moreover have "o' < 230400"
      using in_block_in_frame [where w = 240 and bw = 30 and h = 320 and bh = 40, OF _ _ _ inb] \<open>k < 40 * 30\<close>
      by simp
    ultimately show ?thesis by (simp add: spot_nth)
  qed
  from clean_when_equal [OF this] False show ?thesis by simp
qed

lemma spot_dirty_list: "dirty_list black_frame spot_frame 240 (40 * 30) = [0]"
proof -
  have "filter (dirty_block black_frame spot_frame 240) [0..<40 * 30] = filter (\<lambda>k. k = 0) [0..<40 * 30]"
    by (rule filter_cong) (simp_all add: spot_dirty del: mult_numeral_left)
  also have "\<dots> = [0]" by (rule filter_zero) simp
  finally show ?thesis by (simp add: dirty_list_def)
qed

lemma imageDiff_black_spot:
  assumes "192 * (40 * 30) \<le> length D0" "40 * 30 \<le> 8 * length M0"
  shows "\<exists>prev' D' M'. imageDiff black_frame D0 M0 spot_frame 240 320 = (1, prev', D', M') \<and>
         length prev' = 230400 \<and> length D' = length D0 \<and> length M' = length M0"
  using imageDiff_shape [where w = 240 and bw = 30 and h = 320 and bh = 40
      and prev = black_frame and cur = spot_frame and ?D0.0 = D0 and ?M0.0 = M0] assms
  unfolding spot_dirty_list by (simp add: frame_lengths) blast




lemma le16_small: "le16 2 = [2, 0]" "le16 3 = [3, 0]" "le16 4 = [4, 0]"
  by (simp_all add: le16_def)



lemma unat_size16:
  "n < 65536 \<Longrightarrow> unat (word_of_nat n :: 16 word) = n"
  by (simp add: unat_of_nat)




section \<open>The wire code of the checker modes\<close>

lemma pfd_checker_wire:
  assumes s': "s' = snd (processFrameData jpeg (w, h) env (Some fd) s)"
    and m: "lastFrameMode s' = FM_CHECKER \<or> lastFrameMode s' = FM_CHECKER_COMPL"
    and conn: "connected (sock (maintain_connection env s))"
  shows "wire (sock s') =
      wire (sock s) @ le16 (word_of_int (3 + checker s)) @
      le16 (word_of_nat (length (jpeg (checker_sample fd w h (checker s)) (w div 2) h 70))) @
      take (unat (word_of_nat (length (jpeg (checker_sample fd w h (checker s)) (w div 2) h 70)) :: 16 word))
        (jpeg (checker_sample fd w h (checker s)) (w div 2) h 70)"
proof -
  obtain m n s2 where sel: "select_frame_mode w h fd (maintain_connection env s) = (m, n, s2)"
    by (metis prod_cases3)
  from pfd_fields(1) [OF sel s'] m have m': "m = FM_CHECKER \<or> m = FM_CHECKER_COMPL" by simp
  note k = select_frame_mode_keeps [OF sel]
  from conn have "connected (sock (s2\<lparr>lastFrameMode := m\<rparr>))" by (simp add: k)
  from transmit_checker(2) [OF m' this] show ?thesis
    unfolding pfd_transmit(3) [OF sel s'] by (simp add: k maintain_connection_keeps)
qed

lemma checker_established:
  assumes s': "s' = snd (processFrameData jpeg (w, h) env (Some fd) s)"
    and m: "lastFrameMode s' = FM_CHECKER"
  shows "\<exists>prev'. lastImage s' = Some prev'"
proof (cases "lastImage s")
  case None
  from pfd_first(1) [OF None s'] m show ?thesis by (simp add: modes_neq)
next
  case (Some prev)
  show ?thesis
  proof (cases "forceFrameCount s > 100")
    case True
    from pfd_forced(2) [OF Some True s'] show ?thesis by blast
  next
    case False
    show ?thesis
    proof (cases "lastFrameMode s = FM_CHECKER")
      case True
      from pfd_compl(2) [OF Some False True s'] show ?thesis by blast
    next
      case nc: False
      obtain n prev' D' M' where "imageDiff prev (diffBuf s) (diffMap s) fd w h = (n, prev', D', M')"
        by (metis prod_cases4)
      from pfd_differ(2) [OF Some False nc this s'] show ?thesis by blast
    qed
  qed
qed

lemma run_polls:
  "\<forall>c\<in>set polls. snd c = None \<Longrightarrow>
   lastImage (run jpeg layout s polls) = lastImage s \<and>
   forceFrameCount (run jpeg layout s polls) = forceFrameCount s \<and>
   checker (run jpeg layout s polls) = checker s \<and>
   lastFrameMode (run jpeg layout s polls) = lastFrameMode s"
proof (induction polls arbitrary: s)
  case Nil
  show ?case by simp
next
  case (Cons c polls)
  obtain env fd where c: "c = (env, fd)" by (cases c)
  from Cons.prems have fd: "fd = None" and rest: "\<forall>c\<in>set polls. snd c = None"
    by (simp_all add: c)
  from Cons.IH [OF rest, of "snd (processFrameData jpeg layout env None s)"]
    pfd_lastImage_poll [of jpeg layout env s]
  show ?case by (simp add: c fd)
qed

lemma pfd_compl_only:
  assumes s': "s' = snd (processFrameData jpeg (w, h) env (Some fd) s)"
    and m: "lastFrameMode s' = FM_CHECKER_COMPL"
  shows "lastFrameMode s = FM_CHECKER"
proof (cases "lastImage s")
  case None
  from pfd_first(1) [OF None s'] m show ?thesis by (simp add: modes_neq)
next
  case (Some prev)
  show ?thesis
  proof (cases "forceFrameCount s > 100")
    case True
    from pfd_forced(1) [OF Some True s'] m show ?thesis by (simp add: modes_neq)
  next
    case False
    show ?thesis
    proof (rule ccontr)
      assume nc: "lastFrameMode s \<noteq> FM_CHECKER"
      obtain n prev' D' M' where "imageDiff prev (diffBuf s) (diffMap s) fd w h = (n, prev', D', M')"
        by (metis prod_cases4)
      from pfd_differ(1) [OF Some False nc this s'] m show False
        by (simp add: modes_neq split: if_splits)
    qed
  qed
qed

lemma run_no_checker:
  "lastFrameMode s \<noteq> FM_CHECKER \<Longrightarrow> FM_CHECKER \<notin> set (run_modes jpeg (w, h) s calls) \<Longrightarrow>
   checker (run jpeg (w, h) s calls) = checker s \<and>
   lastFrameMode (run jpeg (w, h) s calls) \<noteq> FM_CHECKER"
proof (induction calls arbitrary: s)
  case Nil
  then show ?case by simp
next
  case (Cons c calls)
  obtain env fd where c: "c = (env, fd)" by (cases c)
  let ?s' = "snd (processFrameData jpeg (w, h) env fd s)"
  show ?case
  proof (cases fd)
    case None
    from pfd_lastImage_poll [of jpeg "(w, h)" env s]
    have k: "checker ?s' = checker s" "lastFrameMode ?s' = lastFrameMode s"
      by (simp_all add: None)
    from Cons.prems(2) have "FM_CHECKER \<notin> set (run_modes jpeg (w, h) ?s' calls)"
      by (simp add: c None)
    from Cons.IH [OF _ this] Cons.prems(1) k show ?thesis by (simp add: c)
  next
    case (Some f)
    have s': "?s' = snd (processFrameData jpeg (w, h) env (Some f) s)" by (simp add: Some)
    from Cons.prems(2) have nc: "lastFrameMode ?s' \<noteq> FM_CHECKER"
      and rest: "FM_CHECKER \<notin> set (run_modes jpeg (w, h) ?s' calls)"
      by (auto simp: c Some Let_def)
    have "lastFrameMode ?s' \<noteq> FM_CHECKER_COMPL"
      using pfd_compl_only [OF s'] Cons.prems(1) by blast
    with nc pfd_counters(3) [OF s'] have k: "checker ?s' = checker s" by simp
    from Cons.IH [OF nc rest] k show ?thesis by (simp add: c)
  qed
qed

lemma pfd_checker_wire_bytes:
  assumes s': "s' = snd (processFrameData jpeg (w, h) env (Some fd) s)"
    and m: "lastFrameMode s' = FM_CHECKER \<or> lastFrameMode s' = FM_CHECKER_COMPL"
    and conn: "connected (sock (maintain_connection env s))"
  shows "wire (sock s') =
      wire (sock s) @ le16 (word_of_int (3 + checker s)) @
      [word_of_nat (length (jpeg (checker_sample fd w h (checker s)) (w div 2) h 70) mod 256),
       word_of_nat (length (jpeg (checker_sample fd w h (checker s)) (w div 2) h 70) div 256 mod 256)] @
      take (length (jpeg (checker_sample fd w h (checker s)) (w div 2) h 70) mod 65536)
        (jpeg (checker_sample fd w h (checker s)) (w div 2) h 70)"
  using pfd_checker_wire [OF s' m conn] unfolding le16_bytes unat_size .

lemma interrupted_pair:
  assumes s1: "s1 = snd (processFrameData jpeg (w, h) env1 (Some f1) s0)"
    and p: "p = run jpeg (w, h) s1 polls"
    and s2: "s2 = snd (processFrameData jpeg (w, h) env2 (Some f2) p)"
    and q: "q = run jpeg (w, h) s2 mid"
    and polls: "\<forall>c\<in>set polls. snd c = None"
    and m1: "lastFrameMode s1 = FM_CHECKER" and m2: "lastFrameMode s2 = FM_FULL"
    and mid: "FM_CHECKER \<notin> set (run_modes jpeg (w, h) s2 mid)"
  shows "forceFrameCount s1 > 100" and "checker q = (checker s0 + 1) AND 1"
proof -
  note k = run_polls [OF polls, of jpeg "(w, h)" s1, folded p]
  from checker_established [OF s1 m1] obtain p1 where "lastImage s1 = Some p1" by blast
  with k have p1: "lastImage p = Some p1" by simp
  from k m1 have mp: "lastFrameMode p = FM_CHECKER" by simp
  show forced: "forceFrameCount s1 > 100"
  proof (rule ccontr)
    assume "\<not> forceFrameCount s1 > 100"
    with k have "\<not> forceFrameCount p > 100" by simp
    from pfd_compl(1) [OF p1 this mp s2] m2 show False by (simp add: modes_neq)
  qed
  have c1: "checker s1 = (checker s0 + 1) AND 1"
    using pfd_counters(3) [OF s1] m1 by simp
  have c2: "checker s2 = checker p"
    using pfd_counters(3) [OF s2] m2 by (simp add: modes_neq)
  from m2 have "lastFrameMode s2 \<noteq> FM_CHECKER" by (simp add: modes_neq)
  from run_no_checker [OF this mid] have "checker q = checker s2" by (simp add: q)
  with c1 c2 k show "checker q = (checker s0 + 1) AND 1" by simp
qed

text \<open>
  C9. While the socket is connected, a call that selects \<open>CHECKER\<close> or \<open>CHECKER_COMPL\<close>
  writes as its mode code the two bytes of \<open>3 + checker\<close>, with \<open>checker\<close> as it is when the
  call starts: 3 for phase 0 and 4 for phase 1, whatever mode was selected. Now let a call
  select \<open>CHECKER\<close>, let the next call with a frame select \<open>FULL\<close> (which can only be the
  forced one, \<open>forceFrameCount > 100\<close>; calls without a frame may come in between), and let
  \<open>s3\<close> be the state after the next call that selects \<open>CHECKER\<close> (the calls \<open>mid\<close> between
  the \<open>FULL\<close> and that call select other modes or have no frame). Then \<open>lastFrameMode\<close>
  records \<open>CHECKER\<close>, and the code written is 4, that of \<open>CHECKER_COMPL\<close>, if the first call
  started with \<open>checker = 0\<close>, and 3 if it started with \<open>checker = 1\<close>.
\<close>

theorem checker_wire_code:
  assumes s1: "s1 = snd (processFrameData jpeg (w, h) env1 (Some f1) s0)"
    and p: "p = run jpeg (w, h) s1 polls"
    and s2: "s2 = snd (processFrameData jpeg (w, h) env2 (Some f2) p)"
    and q: "q = run jpeg (w, h) s2 mid"
    and s3: "s3 = snd (processFrameData jpeg (w, h) env3 (Some f3) q)"
  shows "((lastFrameMode s1 = FM_CHECKER \<or> lastFrameMode s1 = FM_CHECKER_COMPL) \<and>
          connected (sock (maintain_connection env1 s0)) \<longrightarrow>
            wire (sock s1) =
              wire (sock s0) @ le16 (word_of_int (3 + checker s0)) @
              [word_of_nat (length (jpeg (checker_sample f1 w h (checker s0)) (w div 2) h 70) mod 256),
               word_of_nat (length (jpeg (checker_sample f1 w h (checker s0)) (w div 2) h 70) div 256 mod 256)] @
              take (length (jpeg (checker_sample f1 w h (checker s0)) (w div 2) h 70) mod 65536)
                (jpeg (checker_sample f1 w h (checker s0)) (w div 2) h 70)) \<and>
         (checker s0 = 0 \<longrightarrow> le16 (word_of_int (3 + checker s0)) = [3, 0]) \<and>
         (checker s0 = 1 \<longrightarrow> le16 (word_of_int (3 + checker s0)) = [4, 0]) \<and>
         le16 FM_CHECKER = [3, 0] \<and> le16 FM_CHECKER_COMPL = [4, 0] \<and>
         ((\<forall>c\<in>set polls. snd c = None) \<and> lastFrameMode s1 = FM_CHECKER \<and>
          lastFrameMode s2 = FM_FULL \<and> FM_CHECKER \<notin> set (run_modes jpeg (w, h) s2 mid) \<and>
          lastFrameMode s3 = FM_CHECKER \<and> connected (sock (maintain_connection env3 q)) \<longrightarrow>
            forceFrameCount s1 > 100 \<and>
            (checker s0 = 0 \<longrightarrow>
               checker q = 1 \<and>
               wire (sock s3) =
                 wire (sock q) @ [4, 0] @
                 [word_of_nat (length (jpeg (checker_sample f3 w h 1) (w div 2) h 70) mod 256),
                  word_of_nat (length (jpeg (checker_sample f3 w h 1) (w div 2) h 70) div 256 mod 256)] @
                 take (length (jpeg (checker_sample f3 w h 1) (w div 2) h 70) mod 65536)
                   (jpeg (checker_sample f3 w h 1) (w div 2) h 70)) \<and>
            (checker s0 = 1 \<longrightarrow>
               checker q = 0 \<and>
               wire (sock s3) =
                 wire (sock q) @ [3, 0] @
                 [word_of_nat (length (jpeg (checker_sample f3 w h 0) (w div 2) h 70) mod 256),
                  word_of_nat (length (jpeg (checker_sample f3 w h 0) (w div 2) h 70) div 256 mod 256)] @
                 take (length (jpeg (checker_sample f3 w h 0) (w div 2) h 70) mod 65536)
                   (jpeg (checker_sample f3 w h 0) (w div 2) h 70)))"
proof -
  have a: "(lastFrameMode s1 = FM_CHECKER \<or> lastFrameMode s1 = FM_CHECKER_COMPL) \<and>
          connected (sock (maintain_connection env1 s0)) \<longrightarrow>
            wire (sock s1) =
              wire (sock s0) @ le16 (word_of_int (3 + checker s0)) @
              [word_of_nat (length (jpeg (checker_sample f1 w h (checker s0)) (w div 2) h 70) mod 256),
               word_of_nat (length (jpeg (checker_sample f1 w h (checker s0)) (w div 2) h 70) div 256 mod 256)] @
              take (length (jpeg (checker_sample f1 w h (checker s0)) (w div 2) h 70) mod 65536)
                (jpeg (checker_sample f1 w h (checker s0)) (w div 2) h 70)"
    using pfd_checker_wire_bytes [OF s1] by blast
  have b: "checker s0 = 0 \<longrightarrow> le16 (word_of_int (3 + checker s0)) = [3, 0]"
    "checker s0 = 1 \<longrightarrow> le16 (word_of_int (3 + checker s0)) = [4, 0]"
    "le16 FM_CHECKER = [3, 0]" "le16 FM_CHECKER_COMPL = [4, 0]"
    by (simp_all add: le16_small FM_CHECKER_def FM_CHECKER_COMPL_def)
  have c: "forceFrameCount s1 > 100 \<and>
            (checker s0 = 0 \<longrightarrow>
               checker q = 1 \<and>
               wire (sock s3) =
                 wire (sock q) @ [4, 0] @
                 [word_of_nat (length (jpeg (checker_sample f3 w h 1) (w div 2) h 70) mod 256),
                  word_of_nat (length (jpeg (checker_sample f3 w h 1) (w div 2) h 70) div 256 mod 256)] @
                 take (length (jpeg (checker_sample f3 w h 1) (w div 2) h 70) mod 65536)
                   (jpeg (checker_sample f3 w h 1) (w div 2) h 70)) \<and>
            (checker s0 = 1 \<longrightarrow>
               checker q = 0 \<and>
               wire (sock s3) =
                 wire (sock q) @ [3, 0] @
                 [word_of_nat (length (jpeg (checker_sample f3 w h 0) (w div 2) h 70) mod 256),
                  word_of_nat (length (jpeg (checker_sample f3 w h 0) (w div 2) h 70) div 256 mod 256)] @
                 take (length (jpeg (checker_sample f3 w h 0) (w div 2) h 70) mod 65536)
                   (jpeg (checker_sample f3 w h 0) (w div 2) h 70))"
    if h: "(\<forall>c\<in>set polls. snd c = None) \<and> lastFrameMode s1 = FM_CHECKER \<and>
          lastFrameMode s2 = FM_FULL \<and> FM_CHECKER \<notin> set (run_modes jpeg (w, h) s2 mid) \<and>
          lastFrameMode s3 = FM_CHECKER \<and> connected (sock (maintain_connection env3 q))"
  proof -
    from h have polls: "\<forall>c\<in>set polls. snd c = None" and m1: "lastFrameMode s1 = FM_CHECKER"
      and m2: "lastFrameMode s2 = FM_FULL"
      and mid: "FM_CHECKER \<notin> set (run_modes jpeg (w, h) s2 mid)"
      and m3: "lastFrameMode s3 = FM_CHECKER"
      and conn: "connected (sock (maintain_connection env3 q))"
      by blast+
    note ip = interrupted_pair [OF s1 p s2 q polls m1 m2 mid]
    from m3 have m3': "lastFrameMode s3 = FM_CHECKER \<or> lastFrameMode s3 = FM_CHECKER_COMPL" ..
    note w3 = pfd_checker_wire_bytes [OF s3 m3' conn]
    have z: "checker q = 1 \<and>
               wire (sock s3) =
                 wire (sock q) @ [4, 0] @
                 [word_of_nat (length (jpeg (checker_sample f3 w h 1) (w div 2) h 70) mod 256),
                  word_of_nat (length (jpeg (checker_sample f3 w h 1) (w div 2) h 70) div 256 mod 256)] @
                 take (length (jpeg (checker_sample f3 w h 1) (w div 2) h 70) mod 65536)
                   (jpeg (checker_sample f3 w h 1) (w div 2) h 70)"
      if c0: "checker s0 = 0"
    proof -
      from ip(2) c0 have cq: "checker q = 1" by simp
      from w3 show ?thesis unfolding cq by (simp add: le16_small)
    qed
    have o: "checker q = 0 \<and>
               wire (sock s3) =
                 wire (sock q) @ [3, 0] @
                 [word_of_nat (length (jpeg (checker_sample f3 w h 0) (w div 2) h 70) mod 256),
                  word_of_nat (length (jpeg (checker_sample f3 w h 0) (w div 2) h 70) div 256 mod 256)] @
                 take (length (jpeg (checker_sample f3 w h 0) (w div 2) h 70) mod 65536)
                   (jpeg (checker_sample f3 w h 0) (w div 2) h 70)"
      if c0: "checker s0 = 1"
    proof -
      from ip(2) c0 have cq: "checker q = 0" by simp
      from w3 show ?thesis unfolding cq by (simp add: le16_small)
    qed
    from ip(1) z o show ?thesis by blast
  qed
  show ?thesis
    apply (intro conjI)
         apply (rule a)
        apply (rule b(1))
       apply (rule b(2))
      apply (rule b(3))
     apply (rule b(4))
    apply (rule impI)
    apply (erule c)
    done
qed


section \<open>A concrete session\<close>

lemma quiet_connected:
  assumes "connected (sock s)"
  shows "connected (sock (maintain_connection quiet_env s))"
    and "connected (sock (snd (processFrameData jpeg layout quiet_env fd s)))"
proof -
  show c: "connected (sock (maintain_connection quiet_env s))"
    using assms by (simp add: maintain_connection_def quiet_env_def Let_def)
  with pfd_link [of jpeg layout quiet_env fd s]
  show "connected (sock (snd (processFrameData jpeg layout quiet_env fd s)))" by simp
qed

lemma step_forced:
  assumes at: "session_at s f c k" and c: "c > 100"
    and s': "s' = snd (processFrameData jpeg (240, 320) quiet_env (Some fd) s)"
  shows "lastFrameMode s' = FM_FULL" and "session_at s' f 0 k"
proof -
  from at have prev: "lastImage s = Some f" and ffc: "forceFrameCount s > 100"
    using c by (simp_all add: session_at_def)
  note r = pfd_forced [OF prev ffc s']
  note cnt = pfd_counters [OF s']
  show m: "lastFrameMode s' = FM_FULL" by (rule r(1))
  show "session_at s' f 0 k"
    using at r cnt(2,3) quiet_connected(2) [of s jpeg "(240, 320)" "Some fd"]
    by (simp add: session_at_def s' modes_neq)
qed

lemma step_compl:
  assumes at: "session_at s f c k" and c: "c \<le> 100" and last: "lastFrameMode s = FM_CHECKER"
    and s': "s' = snd (processFrameData jpeg (240, 320) quiet_env (Some fd) s)"
  shows "lastFrameMode s' = FM_CHECKER_COMPL" and "session_at s' f (c + 3) ((k + 1) AND 1)"
proof -
  from at have prev: "lastImage s = Some f" and ffc: "\<not> forceFrameCount s > 100"
    using c by (simp_all add: session_at_def)
  note r = pfd_compl [OF prev ffc last s']
  note cnt = pfd_counters [OF s']
  show m: "lastFrameMode s' = FM_CHECKER_COMPL" by (rule r(1))
  show "session_at s' f (c + 3) ((k + 1) AND 1)"
    using at r cnt(2,3) quiet_connected(2) [of s jpeg "(240, 320)" "Some fd"]
    by (simp add: session_at_def s' modes_neq)
qed

lemma step_differ:
  assumes at: "session_at s f c k" and c: "c \<le> 100" and last: "lastFrameMode s \<noteq> FM_CHECKER"
    and d: "imageDiff f (diffBuf s) (diffMap s) fd 240 320 = (n, prev', D', M')"
    and lens: "length D' = length (diffBuf s)" "length M' = length (diffMap s)"
    and s': "s' = snd (processFrameData jpeg (240, 320) quiet_env (Some fd) s)"
  shows "lastFrameMode s' = (if n > 400 then FM_CHECKER else if n > 0 then FM_DIFF else FM_NONE)"
    and "session_at s' prev'
           (if n > 400 then c + 3 else if n > 0 then c + 5 else c + 1)
           (if n > 400 then (k + 1) AND 1 else k)"
proof -
  from at have prev: "lastImage s = Some f" and ffc: "\<not> forceFrameCount s > 100"
    using c by (simp_all add: session_at_def)
  note r = pfd_differ [OF prev ffc last d s']
  note cnt = pfd_counters [OF s']
  show m: "lastFrameMode s' = (if n > 400 then FM_CHECKER else if n > 0 then FM_DIFF else FM_NONE)"
    by (rule r(1))
  have conn: "connected (sock s')"
    unfolding s' using at by (intro quiet_connected(2)) (simp add: session_at_def)
  show "session_at s' prev'
           (if n > 400 then c + 3 else if n > 0 then c + 5 else c + 1)
           (if n > 400 then (k + 1) AND 1 else k)"
    using at r(2-4) lens conn cnt(2,3) unfolding m
    by (simp add: session_at_def modes_neq)
qed

lemma step_same:
  assumes at: "session_at s f c k" and c: "c \<le> 100" and last: "lastFrameMode s \<noteq> FM_CHECKER"
    and s': "s' = snd (processFrameData jpeg (240, 320) quiet_env (Some f) s)"
  shows "lastFrameMode s' = FM_NONE" and "session_at s' f (c + 1) k"
proof -
  from imageDiff_same [where w = 240 and bw = 30 and h = 320 and bh = 40 and f = f
      and D = "diffBuf s" and M = "diffMap s"]
  obtain M' where d: "imageDiff f (diffBuf s) (diffMap s) f 240 320 = (0, f, diffBuf s, M')"
    and l: "length M' = length (diffMap s)" by auto
  from step_differ [OF at c last d refl l s']
  show "lastFrameMode s' = FM_NONE" and "session_at s' f (c + 1) k" by simp_all
qed

lemma step_black_white:
  assumes at: "session_at s black_frame c k" and c: "c \<le> 100" and last: "lastFrameMode s \<noteq> FM_CHECKER"
    and s': "s' = snd (processFrameData jpeg (240, 320) quiet_env (Some white_frame) s)"
  shows "lastFrameMode s' = FM_CHECKER" and "session_at s' white_frame (c + 3) ((k + 1) AND 1)"
proof -
  from at have "192 * (40 * 30) \<le> length (diffBuf s)" "40 * 30 \<le> 8 * length (diffMap s)"
    by (simp_all add: session_at_def)
  from imageDiff_black_white(1) [OF this] obtain D' M' where
    d: "imageDiff black_frame (diffBuf s) (diffMap s) white_frame 240 320 = (1200, white_frame, D', M')"
    and l: "length D' = length (diffBuf s)" "length M' = length (diffMap s)" by blast
  from step_differ [OF at c last d l s']
  show "lastFrameMode s' = FM_CHECKER" and "session_at s' white_frame (c + 3) ((k + 1) AND 1)"
    by simp_all
qed

lemma step_white_black:
  assumes at: "session_at s white_frame c k" and c: "c \<le> 100" and last: "lastFrameMode s \<noteq> FM_CHECKER"
    and s': "s' = snd (processFrameData jpeg (240, 320) quiet_env (Some black_frame) s)"
  shows "lastFrameMode s' = FM_CHECKER" and "session_at s' black_frame (c + 3) ((k + 1) AND 1)"
proof -
  from at have "192 * (40 * 30) \<le> length (diffBuf s)" "40 * 30 \<le> 8 * length (diffMap s)"
    by (simp_all add: session_at_def)
  from imageDiff_black_white(2) [OF this] obtain D' M' where
    d: "imageDiff white_frame (diffBuf s) (diffMap s) black_frame 240 320 = (1200, black_frame, D', M')"
    and l: "length D' = length (diffBuf s)" "length M' = length (diffMap s)" by blast
  from step_differ [OF at c last d l s']
  show "lastFrameMode s' = FM_CHECKER" and "session_at s' black_frame (c + 3) ((k + 1) AND 1)"
    by simp_all
qed

lemma step_black_spot:
  assumes at: "session_at s black_frame c k" and c: "c \<le> 100" and last: "lastFrameMode s \<noteq> FM_CHECKER"
    and s': "s' = snd (processFrameData jpeg (240, 320) quiet_env (Some spot_frame) s)"
  shows "lastFrameMode s' = FM_DIFF" and "forceFrameCount s' = c + 5" and "checker s' = k"
proof -
  from at have "192 * (40 * 30) \<le> length (diffBuf s)" "40 * 30 \<le> 8 * length (diffMap s)"
    by (simp_all add: session_at_def)
  from imageDiff_black_spot [OF this] obtain prev' D' M' where
    d: "imageDiff black_frame (diffBuf s) (diffMap s) spot_frame 240 320 = (1, prev', D', M')"
    and l: "length D' = length (diffBuf s)" "length M' = length (diffMap s)" by blast
  from step_differ [OF at c last d l s']
  show "lastFrameMode s' = FM_DIFF" and "forceFrameCount s' = c + 5" and "checker s' = k"
    by (simp_all add: session_at_def)
qed

lemma run_same:
  "session_at s f c k \<Longrightarrow> c + int n \<le> 101 \<Longrightarrow> lastFrameMode s \<noteq> FM_CHECKER \<Longrightarrow>
   session_at (run jpeg (240, 320) s (replicate n (quiet_env, Some f))) f (c + int n) k \<and>
   lastFrameMode (run jpeg (240, 320) s (replicate n (quiet_env, Some f))) \<noteq> FM_CHECKER"
proof (induction n arbitrary: s c)
  case 0
  then show ?case by simp
next
  case (Suc n)
  let ?s' = "snd (processFrameData jpeg (240, 320) quiet_env (Some f) s)"
  from Suc.prems have c: "c \<le> 100" by simp
  note st = step_same [OF Suc.prems(1) c Suc.prems(3) refl, of jpeg]
  from Suc.prems have "c + 1 + int n \<le> 101" by simp
  from Suc.IH [OF st(2) this] st(1) show ?case
    by (simp add: modes_neq add.assoc)
qed

lemma first_state_facts:
  "session_at first_state black_frame 0 0" "lastFrameMode first_state = FM_FULL"
proof -
  note f = first_call [OF refl, of sample_encoder quiet_env]
  have env: "connect_ok quiet_env" "\<not> link_lost quiet_env" by (simp_all add: quiet_env_def)
  have "connected (sock (maintain_connection quiet_env initial_state))"
    by (simp add: maintain_connection_def initial_state_def quiet_env_def Let_def)
  with pfd_link [of sample_encoder "(240, 320)" quiet_env "Some black_frame" initial_state]
  have conn: "connected (sock first_state)"
    by (simp add: first_state_def ctroll_layout_def)
  show "session_at first_state black_frame 0 0"
    using f conn initial_buffers
    by (simp add: session_at_def first_state_def ctroll_layout_def)
  show "lastFrameMode first_state = FM_FULL"
    using f(1) by (simp add: first_state_def ctroll_layout_def)
qed

lemma settled_state_facts:
  "session_at settled_state black_frame 98 0" "lastFrameMode settled_state \<noteq> FM_CHECKER"
  using run_same [OF first_state_facts(1), of 98 sample_encoder] first_state_facts(2)
  by (simp_all add: settled_state_def ctroll_layout_def modes_neq)

lemma checker_state_facts:
  "session_at checker_state white_frame 101 1" "lastFrameMode checker_state = FM_CHECKER"
  using step_black_white [OF settled_state_facts(1) _ settled_state_facts(2) refl, of sample_encoder]
  by (simp_all add: checker_state_def ctroll_layout_def)

lemma refreshed_state_facts:
  "session_at refreshed_state white_frame 0 1" "lastFrameMode refreshed_state = FM_FULL"
  using step_forced [OF checker_state_facts(1) _ refl, of sample_encoder white_frame]
  by (simp_all add: refreshed_state_def ctroll_layout_def)

lemma early_checker_state_facts:
  "session_at early_checker_state white_frame 3 1" "lastFrameMode early_checker_state = FM_CHECKER"
  using step_black_white [OF first_state_facts(1) _ _ refl, of sample_encoder] first_state_facts(2)
  by (simp_all add: early_checker_state_def ctroll_layout_def modes_neq)

lemma resettled_state_facts:
  "session_at resettled_state white_frame 98 1" "lastFrameMode resettled_state \<noteq> FM_CHECKER"
  using run_same [OF refreshed_state_facts(1), of 98 sample_encoder] refreshed_state_facts(2)
  by (simp_all add: resettled_state_def ctroll_layout_def modes_neq)

lemma late_checker_state_facts:
  "session_at late_checker_state black_frame 101 0" "lastFrameMode late_checker_state = FM_CHECKER"
  using step_white_black [OF resettled_state_facts(1) _ resettled_state_facts(2) refl, of sample_encoder]
  by (simp_all add: late_checker_state_def ctroll_layout_def)

lemma late_refreshed_state_facts:
  "session_at late_refreshed_state black_frame 0 0" "lastFrameMode late_refreshed_state = FM_FULL"
  using step_forced [OF late_checker_state_facts(1) _ refl, of sample_encoder black_frame]
  by (simp_all add: late_refreshed_state_def ctroll_layout_def)







lemma step_poll:
  assumes at: "session_at s f c k"
  shows "session_at (snd (processFrameData jpeg layout quiet_env None s)) f c k"
    and "lastFrameMode (snd (processFrameData jpeg layout quiet_env None s)) = lastFrameMode s"
proof -
  from at have "connected (sock s)" by (simp add: session_at_def)
  from quiet_connected(2) [OF this, of jpeg layout None]
    pfd_lastImage_poll [of jpeg layout quiet_env s] at
  show "session_at (snd (processFrameData jpeg layout quiet_env None s)) f c k"
    by (simp add: session_at_def)
  from pfd_lastImage_poll [of jpeg layout quiet_env s]
  show "lastFrameMode (snd (processFrameData jpeg layout quiet_env None s)) = lastFrameMode s"
    by simp
qed

lemma polled_checker_state_facts:
  "session_at polled_checker_state white_frame 101 1"
  "lastFrameMode polled_checker_state = FM_CHECKER"
  using step_poll [OF checker_state_facts(1), of sample_encoder ctroll_layout] checker_state_facts(2)
  by (simp_all add: polled_checker_state_def)

lemma polled_refreshed_state_facts:
  "session_at polled_refreshed_state white_frame 0 1"
  "lastFrameMode polled_refreshed_state = FM_FULL"
  using step_forced [OF polled_checker_state_facts(1) _ refl, of sample_encoder white_frame]
  by (simp_all add: polled_refreshed_state_def ctroll_layout_def)

lemma idle_state_facts:
  "session_at idle_state white_frame 1 1" "lastFrameMode idle_state = FM_NONE"
  "run_modes sample_encoder (240, 320) polled_refreshed_state idle_calls = [FM_NONE]"
proof -
  let ?a = "snd (processFrameData sample_encoder (240, 320) quiet_env None polled_refreshed_state)"
  let ?b = "snd (processFrameData sample_encoder (240, 320) quiet_env (Some white_frame) ?a)"
  note a = step_poll [OF polled_refreshed_state_facts(1), of sample_encoder "(240, 320)"]
  from a(2) polled_refreshed_state_facts(2) have na: "lastFrameMode ?a \<noteq> FM_CHECKER"
    by (simp add: modes_neq)
  note b = step_same [OF a(1) _ na refl, of sample_encoder]
  have i: "idle_state = ?b"
    by (simp add: idle_state_def idle_calls_def ctroll_layout_def)
  from b show "session_at idle_state white_frame 1 1" "lastFrameMode idle_state = FM_NONE"
    unfolding i by simp_all
  from b(1) show "run_modes sample_encoder (240, 320) polled_refreshed_state idle_calls = [FM_NONE]"
    by (simp add: idle_calls_def Let_def)
qed

section \<open>The claims on the concrete session\<close>

lemma session_atD:
  assumes "session_at s f c k"
  shows "lastImage s = Some f" "forceFrameCount s = c" "checker s = k" "connected (sock s)"
    "192 * (40 * 30) \<le> length (diffBuf s)" "length (diffMap s) = 150"
    "40 * 30 \<le> 8 * length (diffMap s)"
  using assms by (simp_all add: session_at_def)



theorem frame_mode_selection_witness:
  "lastImage initial_state = None \<and> length black_frame = 240 * 320 * 3 \<and>
   lastFrameMode first_state = FM_FULL \<and> lastImage first_state = Some black_frame \<and>
   lastImage settled_state = Some black_frame \<and> \<not> forceFrameCount settled_state > 100 \<and>
   lastFrameMode settled_state \<noteq> FM_CHECKER \<and>
   lastFrameMode (snd (processFrameData sample_encoder (240, 320) quiet_env (Some black_frame)
     settled_state)) = FM_NONE \<and>
   lastFrameMode (snd (processFrameData sample_encoder (240, 320) quiet_env (Some spot_frame)
     settled_state)) = FM_DIFF \<and>
   lastFrameMode (snd (processFrameData sample_encoder (240, 320) quiet_env (Some white_frame)
     settled_state)) = FM_CHECKER \<and>
   lastFrameMode early_checker_state = FM_CHECKER \<and> \<not> forceFrameCount early_checker_state > 100 \<and>
   lastFrameMode (snd (processFrameData sample_encoder (240, 320) quiet_env (Some white_frame)
     early_checker_state)) = FM_CHECKER_COMPL \<and>
   forceFrameCount checker_state > 100 \<and>
   lastFrameMode (snd (processFrameData sample_encoder (240, 320) quiet_env (Some white_frame)
     checker_state)) = FM_FULL"
proof -
  note st = session_atD [OF settled_state_facts(1)]
  note ec = session_atD [OF early_checker_state_facts(1)]
  note ck = session_atD [OF checker_state_facts(1)]
  have none: "lastImage initial_state = None" by (simp add: initial_state_def)
  have first: "lastFrameMode first_state = FM_FULL \<and> lastImage first_state = Some black_frame"
    using frame_mode_selection [OF refl, where s = initial_state and jpeg = sample_encoder
        and w = 240 and h = 320 and env = quiet_env and fd = black_frame] none frame_lengths(1)
    by (simp add: first_state_def ctroll_layout_def)
  from imageDiff_same [where w = 240 and bw = 30 and h = 320 and bh = 40 and f = black_frame
      and D = "diffBuf settled_state" and M = "diffMap settled_state"]
  obtain M0 where d0: "imageDiff black_frame (diffBuf settled_state) (diffMap settled_state)
      black_frame 240 320 = (0, black_frame, diffBuf settled_state, M0)" by auto
  have same: "lastFrameMode (snd (processFrameData sample_encoder (240, 320) quiet_env
      (Some black_frame) settled_state)) = FM_NONE"
    using frame_mode_selection [OF refl, where s = settled_state and jpeg = sample_encoder
        and w = 240 and h = 320 and env = quiet_env and fd = black_frame]
      st(1,2) settled_state_facts(2) d0
    by simp
  from imageDiff_black_spot [OF st(5) st(7)]
  obtain p1 D1 M1 where d1: "imageDiff black_frame (diffBuf settled_state) (diffMap settled_state)
      spot_frame 240 320 = (1, p1, D1, M1)" by auto
  have spot: "lastFrameMode (snd (processFrameData sample_encoder (240, 320) quiet_env
      (Some spot_frame) settled_state)) = FM_DIFF"
    using frame_mode_selection [OF refl, where s = settled_state and jpeg = sample_encoder
        and w = 240 and h = 320 and env = quiet_env and fd = spot_frame]
      st(1,2) settled_state_facts(2) d1
    by simp
  from imageDiff_black_white(1) [OF st(5) st(7)]
  obtain D2 M2 where d2: "imageDiff black_frame (diffBuf settled_state) (diffMap settled_state)
      white_frame 240 320 = (1200, white_frame, D2, M2)" by auto
  have white: "lastFrameMode (snd (processFrameData sample_encoder (240, 320) quiet_env
      (Some white_frame) settled_state)) = FM_CHECKER"
    using frame_mode_selection [OF refl, where s = settled_state and jpeg = sample_encoder
        and w = 240 and h = 320 and env = quiet_env and fd = white_frame]
      st(1,2) settled_state_facts(2) d2
    by simp
  obtain n3 p3 D3 M3 where d3: "imageDiff white_frame (diffBuf early_checker_state)
      (diffMap early_checker_state) white_frame 240 320 = (n3, p3, D3, M3)"
    by (metis prod_cases4)
  have compl: "lastFrameMode (snd (processFrameData sample_encoder (240, 320) quiet_env
      (Some white_frame) early_checker_state)) = FM_CHECKER_COMPL"
    using frame_mode_selection [OF refl, where s = early_checker_state and jpeg = sample_encoder
        and w = 240 and h = 320 and env = quiet_env and fd = white_frame]
      ec(1,2) early_checker_state_facts(2) d3
    by simp
  obtain n4 p4 D4 M4 where d4: "imageDiff white_frame (diffBuf checker_state)
      (diffMap checker_state) white_frame 240 320 = (n4, p4, D4, M4)"
    by (metis prod_cases4)
  have forced: "lastFrameMode (snd (processFrameData sample_encoder (240, 320) quiet_env
      (Some white_frame) checker_state)) = FM_FULL"
    using frame_mode_selection [OF refl, where s = checker_state and jpeg = sample_encoder
        and w = 240 and h = 320 and env = quiet_env and fd = white_frame]
      ck(1,2) d4
    by simp
  show ?thesis
    using none frame_lengths(1) first st(1,2) settled_state_facts(2) same spot white
      early_checker_state_facts(2) ec(2) compl ck(2) forced
    by simp
qed

theorem imageDiff_effect_witness:
  "fst (imageDiff black_frame (diffBuf initial_state) (diffMap initial_state) spot_frame 240 320) = 1 \<and>
   dirty_block black_frame spot_frame 240 0 \<and> \<not> dirty_block black_frame spot_frame 240 1 \<and>
   block_bytes (fst (snd (imageDiff black_frame (diffBuf initial_state) (diffMap initial_state)
       spot_frame 240 320))) (240 * 3) (block_offset 240 0) =
     block_bytes spot_frame (240 * 3) (block_offset 240 0) \<and>
   block_bytes (fst (snd (imageDiff black_frame (diffBuf initial_state) (diffMap initial_state)
       spot_frame 240 320))) (240 * 3) (block_offset 240 1) =
     block_bytes black_frame (240 * 3) (block_offset 240 1) \<and>
   take 192 (fst (snd (snd (imageDiff black_frame (diffBuf initial_state) (diffMap initial_state)
       spot_frame 240 320)))) = block_bytes spot_frame (240 * 3) (block_offset 240 0) \<and>
   bit (snd (snd (snd (imageDiff black_frame (diffBuf initial_state) (diffMap initial_state)
       spot_frame 240 320))) ! 0) 0 \<and>
   \<not> bit (snd (snd (snd (imageDiff black_frame (diffBuf initial_state) (diffMap initial_state)
       spot_frame 240 320))) ! 0) 1"
proof -
  let ?X = "imageDiff black_frame (diffBuf initial_state) (diffMap initial_state) spot_frame 240 320"
  have res: "?X = (fst ?X, fst (snd ?X), fst (snd (snd ?X)), snd (snd (snd ?X)))" by simp
  have w: "(240::nat) = 8 * 30" and h: "(320::nat) = 8 * 40" by simp_all
  have d0: "dirty_block black_frame spot_frame 240 0" and d1: "\<not> dirty_block black_frame spot_frame 240 1"
    using spot_dirty [of 0] spot_dirty [of 1] by simp_all
  note t = imageDiff_effect [OF w h frame_lengths(1) initial_buffers(1,2) res]
  have n: "fst ?X = 1"
    using t [THEN conjunct1] unfolding spot_dirty_list by simp
  have blocks: "\<forall>k<40 * 30. block_bytes (fst (snd ?X)) (240 * 3) (block_offset 240 k) =
      (if dirty_block black_frame spot_frame 240 k then block_bytes spot_frame (240 * 3) (block_offset 240 k)
       else block_bytes black_frame (240 * 3) (block_offset 240 k))"
    using t by blast
  have pk: "take (192 * fst ?X) (fst (snd (snd ?X))) =
      packed spot_frame 240 (dirty_list black_frame spot_frame 240 (40 * 30))"
    using t by blast
  have bits: "\<forall>k<40 * 30. bit (snd (snd (snd ?X)) ! (k div 8)) (k mod 8) \<longleftrightarrow>
      dirty_block black_frame spot_frame 240 k"
    using t by blast
  from blocks [THEN spec, of 0] blocks [THEN spec, of 1] d0 d1
  have b: "block_bytes (fst (snd ?X)) (240 * 3) (block_offset 240 0) =
      block_bytes spot_frame (240 * 3) (block_offset 240 0)"
    "block_bytes (fst (snd ?X)) (240 * 3) (block_offset 240 1) =
      block_bytes black_frame (240 * 3) (block_offset 240 1)"
    by simp_all
  from pk have p: "take 192 (fst (snd (snd ?X))) = block_bytes spot_frame (240 * 3) (block_offset 240 0)"
    unfolding n spot_dirty_list by (simp add: packed_def)
  from bits [THEN spec, of 0] bits [THEN spec, of 1] d0 d1
  have m: "bit (snd (snd (snd ?X)) ! 0) 0" "\<not> bit (snd (snd (snd ?X)) ! 0) 1"
    by simp_all
  from n d0 d1 b p m show ?thesis by blast
qed

theorem counter_updates_witness:
  "lastFrameMode first_state = FM_FULL \<and> forceFrameCount first_state = 0 \<and>
   forceFrameCount settled_state = 98 \<and> checker settled_state = 0 \<and>
   lastFrameMode (snd (processFrameData sample_encoder (240, 320) quiet_env (Some black_frame)
     settled_state)) = FM_NONE \<and>
   forceFrameCount (snd (processFrameData sample_encoder (240, 320) quiet_env (Some black_frame)
     settled_state)) = 99 \<and>
   lastFrameMode (snd (processFrameData sample_encoder (240, 320) quiet_env (Some spot_frame)
     settled_state)) = FM_DIFF \<and>
   forceFrameCount (snd (processFrameData sample_encoder (240, 320) quiet_env (Some spot_frame)
     settled_state)) = 103 \<and>
   checker (snd (processFrameData sample_encoder (240, 320) quiet_env (Some spot_frame)
     settled_state)) = 0 \<and>
   lastFrameMode checker_state = FM_CHECKER \<and> forceFrameCount checker_state = 101 \<and>
   checker checker_state = 1 \<and>
   forceFrameCount early_checker_state = 3 \<and> checker early_checker_state = 1 \<and>
   lastFrameMode (snd (processFrameData sample_encoder (240, 320) quiet_env (Some white_frame)
     early_checker_state)) = FM_CHECKER_COMPL \<and>
   forceFrameCount (snd (processFrameData sample_encoder (240, 320) quiet_env (Some white_frame)
     early_checker_state)) = 6 \<and>
   checker (snd (processFrameData sample_encoder (240, 320) quiet_env (Some white_frame)
     early_checker_state)) = 0"
proof -
  note st = session_atD [OF settled_state_facts(1)]
  note ec = session_atD [OF early_checker_state_facts(1)]
  have first: "forceFrameCount first_state = 0"
    using counter_updates [OF refl, where s = initial_state and jpeg = sample_encoder
        and w = 240 and h = 320 and env = quiet_env and fd = black_frame] first_state_facts(2)
    by (simp add: first_state_def ctroll_layout_def)
  have m1: "lastFrameMode (snd (processFrameData sample_encoder (240, 320) quiet_env
      (Some black_frame) settled_state)) = FM_NONE"
    by (rule step_same(1) [OF settled_state_facts(1) _ settled_state_facts(2) refl]) simp
  have none: "forceFrameCount (snd (processFrameData sample_encoder (240, 320) quiet_env
      (Some black_frame) settled_state)) = 99"
    using counter_updates [OF refl, where s = settled_state and jpeg = sample_encoder
        and w = 240 and h = 320 and env = quiet_env and fd = black_frame] m1 st(2)
    by simp
  have m2: "lastFrameMode (snd (processFrameData sample_encoder (240, 320) quiet_env
      (Some spot_frame) settled_state)) = FM_DIFF"
    by (rule step_black_spot(1) [OF settled_state_facts(1) _ settled_state_facts(2) refl]) simp
  have diff: "forceFrameCount (snd (processFrameData sample_encoder (240, 320) quiet_env
      (Some spot_frame) settled_state)) = 103 \<and>
    checker (snd (processFrameData sample_encoder (240, 320) quiet_env
      (Some spot_frame) settled_state)) = 0"
    using counter_updates [OF refl, where s = settled_state and jpeg = sample_encoder
        and w = 240 and h = 320 and env = quiet_env and fd = spot_frame] m2 st(2,3)
    by (simp add: modes_neq)
  have chk: "forceFrameCount checker_state = 101 \<and> checker checker_state = 1"
    using counter_updates [OF refl, where s = settled_state and jpeg = sample_encoder
        and w = 240 and h = 320 and env = quiet_env and fd = white_frame]
      checker_state_facts(2) st(2,3)
    by (simp add: checker_state_def ctroll_layout_def)
  have m3: "lastFrameMode (snd (processFrameData sample_encoder (240, 320) quiet_env
      (Some white_frame) early_checker_state)) = FM_CHECKER_COMPL"
    by (rule step_compl(1) [OF early_checker_state_facts(1) _ early_checker_state_facts(2) refl]) simp
  have compl: "forceFrameCount (snd (processFrameData sample_encoder (240, 320) quiet_env
      (Some white_frame) early_checker_state)) = 6 \<and>
    checker (snd (processFrameData sample_encoder (240, 320) quiet_env
      (Some white_frame) early_checker_state)) = 0"
    using counter_updates [OF refl, where s = early_checker_state and jpeg = sample_encoder
        and w = 240 and h = 320 and env = quiet_env and fd = white_frame] m3 ec(2,3)
    by simp
  show ?thesis
    using first_state_facts(2) first st(2,3) m1 none m2 diff checker_state_facts(2) chk ec(2,3) m3 compl
    by simp
qed

theorem checkerboard_complete_witness:
  "even (240::nat) \<and> lastFrameMode checker_state = FM_CHECKER \<and> checker settled_state = 0 \<and>
   outBuf checker_state = sample_encoder (checker_sample white_frame 240 320 0) 120 320 70 \<and>
   checker_sample white_frame 240 320 0 =
     concat (map (\<lambda>(j, i). pick white_frame (3 * (j * 240) + 3 * i)) (sample_positions 0 240 320)) \<and>
   checker_sample white_frame 240 320 1 =
     concat (map (\<lambda>(j, i). pick white_frame (3 * (j * 240) + 3 * i)) (sample_positions 1 240 320)) \<and>
   distinct (sample_positions 0 240 320) \<and> distinct (sample_positions 1 240 320) \<and>
   length (sample_cols 0 240 7) = 120 \<and> length (sample_cols 1 240 7) = 120 \<and>
   set (sample_positions 0 240 320) \<inter> set (sample_positions 1 240 320) = {} \<and>
   set (sample_positions 0 240 320) \<union> set (sample_positions 1 240 320) = {0..<320} \<times> {0..<240}"
proof -
  have ev: "even (240::nat)" by simp
  note st = session_atD [OF settled_state_facts(1)]
  note t = checkerboard_complete [OF ev refl, where s = settled_state and jpeg = sample_encoder
      and h = 320 and env = quiet_env and fd = white_frame]
  have out: "outBuf checker_state = sample_encoder (checker_sample white_frame 240 320 0) 120 320 70"
    using t [THEN conjunct1] checker_state_facts(2) st(3)
    by (simp add: checker_state_def ctroll_layout_def)
  have samples: "\<forall>c<2. checker_sample white_frame 240 320 (int c) =
      concat (map (\<lambda>(j, i). pick white_frame (3 * (j * 240) + 3 * i)) (sample_positions c 240 320))"
    using t by blast
  have dist: "\<forall>c. distinct (sample_positions c 240 320)" using t by blast
  have cols: "\<forall>c j. length (sample_cols c 240 j) = 240 div 2" using t by blast
  have disj: "set (sample_positions 0 240 320) \<inter> set (sample_positions 1 240 320) = {}"
    and cover: "set (sample_positions 0 240 320) \<union> set (sample_positions 1 240 320) = {0..<320} \<times> {0..<240}"
    using t by blast+
  from samples [THEN spec, of 0] samples [THEN spec, of 1]
  have s01: "checker_sample white_frame 240 320 0 =
      concat (map (\<lambda>(j, i). pick white_frame (3 * (j * 240) + 3 * i)) (sample_positions 0 240 320))"
    "checker_sample white_frame 240 320 1 =
      concat (map (\<lambda>(j, i). pick white_frame (3 * (j * 240) + 3 * i)) (sample_positions 1 240 320))"
    by simp_all
  from cols have c: "length (sample_cols 0 240 7) = 120" "length (sample_cols 1 240 7) = 120"
    by simp_all
  from ev checker_state_facts(2) st(3) out s01 dist c disj cover show ?thesis by blast
qed



theorem send_disconnected_witness:
  "\<not> connected (sock initial_state) \<and> waitConnection initial_state = 0 \<and>
   socketSend (sock initial_state) [1, 2] = (0, sock initial_state) \<and>
   wire (sock (snd (processFrameData sample_encoder ctroll_layout down_env (Some black_frame)
     initial_state))) = [] \<and>
   \<not> connected (sock (snd (processFrameData sample_encoder ctroll_layout down_env (Some black_frame)
     initial_state))) \<and>
   attempts (sock (snd (processFrameData sample_encoder ctroll_layout down_env (Some black_frame)
     initial_state))) = 1 \<and>
   waitConnection (snd (processFrameData sample_encoder ctroll_layout down_env (Some black_frame)
     initial_state)) = 300 \<and>
   attempts (sock (run sample_encoder ctroll_layout
     (snd (processFrameData sample_encoder ctroll_layout down_env (Some black_frame) initial_state))
     (replicate 300 (down_env, Some black_frame)))) = 1 \<and>
   wire (sock (run sample_encoder ctroll_layout
     (snd (processFrameData sample_encoder ctroll_layout down_env (Some black_frame) initial_state))
     (replicate 300 (down_env, Some black_frame)))) = [] \<and>
   attempts (sock (snd (processFrameData sample_encoder ctroll_layout down_env (Some black_frame)
     (run sample_encoder ctroll_layout
       (snd (processFrameData sample_encoder ctroll_layout down_env (Some black_frame) initial_state))
       (replicate 300 (down_env, Some black_frame)))))) = 2"
proof -
  let ?s1 = "snd (processFrameData sample_encoder ctroll_layout down_env (Some black_frame) initial_state)"
  let ?calls = "replicate 300 (down_env, Some black_frame)"
  have i: "\<not> connected (sock initial_state)" "waitConnection initial_state = 0"
    "wire (sock initial_state) = []" "attempts (sock initial_state) = 0"
    by (simp_all add: initial_state_def)
  have env: "\<not> connect_ok down_env" by (simp add: down_env_def)
  have down: "\<not> connected (sock (maintain_connection down_env initial_state))"
    by (simp add: maintain_connection_def initial_state_def down_env_def Let_def)
  note t1 = send_disconnected [where sk = "sock initial_state" and d = "[1, 2]" and env = down_env
      and s = initial_state and jpeg = sample_encoder and layout = ctroll_layout
      and fd = "Some black_frame" and calls = "[]"]
  have a: "socketSend (sock initial_state) [1, 2] = (0, sock initial_state)"
    using t1 i(1) by blast
  have b: "wire (sock ?s1) = [] \<and> \<not> connected (sock ?s1)"
    using t1 [THEN conjunct2, THEN conjunct1] down i(3) by simp
  have c: "attempts (sock ?s1) = 1 \<and> waitConnection ?s1 = 300"
    using t1 [THEN conjunct2, THEN conjunct2, THEN conjunct1] i by simp
  note t2 = send_disconnected [where sk = "sock initial_state" and d = "[1, 2]" and env = down_env
      and s = ?s1 and jpeg = sample_encoder and layout = ctroll_layout
      and fd = "Some black_frame" and calls = ?calls]
  have d: "attempts (sock (run sample_encoder ctroll_layout ?s1 ?calls)) = 1 \<and>
      wire (sock (run sample_encoder ctroll_layout ?s1 ?calls)) = [] \<and>
      attempts (sock (snd (processFrameData sample_encoder ctroll_layout down_env (Some black_frame)
        (run sample_encoder ctroll_layout ?s1 ?calls)))) = 2"
    using t2 [THEN conjunct2, THEN conjunct2, THEN conjunct2] b c by simp
  from i(1,2) a b c d show ?thesis by blast
qed

theorem checker_wire_code_witness:
  "checker settled_state = 0 \<and>
   lastFrameMode checker_state = FM_CHECKER \<and>
   lastFrameMode polled_refreshed_state = FM_FULL \<and>
   FM_CHECKER \<notin> set (run_modes sample_encoder (240, 320) polled_refreshed_state idle_calls) \<and>
   lastFrameMode (snd (processFrameData sample_encoder (240, 320) quiet_env (Some black_frame)
     idle_state)) = FM_CHECKER \<and>
   connected (sock (maintain_connection quiet_env idle_state)) \<and>
   forceFrameCount checker_state > 100 \<and> checker idle_state = 1 \<and>
   wire (sock (snd (processFrameData sample_encoder (240, 320) quiet_env (Some black_frame)
     idle_state))) =
     wire (sock idle_state) @ [4, 0] @
     [word_of_nat (length (sample_encoder (checker_sample black_frame 240 320 1) (240 div 2) 320 70) mod 256),
      word_of_nat (length (sample_encoder (checker_sample black_frame 240 320 1) (240 div 2) 320 70) div 256 mod 256)] @
     take (length (sample_encoder (checker_sample black_frame 240 320 1) (240 div 2) 320 70) mod 65536)
       (sample_encoder (checker_sample black_frame 240 320 1) (240 div 2) 320 70)"
proof -
  let ?s3 = "snd (processFrameData sample_encoder (240, 320) quiet_env (Some black_frame) idle_state)"
  note st = session_atD [OF settled_state_facts(1)]
  note id = session_atD [OF idle_state_facts(1)]
  have s1: "checker_state = snd (processFrameData sample_encoder (240, 320) quiet_env (Some white_frame) settled_state)"
    by (simp add: checker_state_def ctroll_layout_def)
  have p: "polled_checker_state = run sample_encoder (240, 320) checker_state [(quiet_env, None)]"
    by (simp add: polled_checker_state_def ctroll_layout_def)
  have s2: "polled_refreshed_state = snd (processFrameData sample_encoder (240, 320) quiet_env (Some white_frame) polled_checker_state)"
    by (simp add: polled_refreshed_state_def ctroll_layout_def)
  have q: "idle_state = run sample_encoder (240, 320) polled_refreshed_state idle_calls"
    by (simp add: idle_state_def ctroll_layout_def)
  have polls: "\<forall>c\<in>set [(quiet_env, None :: byte list option)]. snd c = None" by simp
  have mid: "FM_CHECKER \<notin> set (run_modes sample_encoder (240, 320) polled_refreshed_state idle_calls)"
    by (simp add: idle_state_facts(3) modes_neq)
  have m3: "lastFrameMode ?s3 = FM_CHECKER"
    by (rule step_white_black(1) [OF idle_state_facts(1) _ _ refl])
      (simp_all add: idle_state_facts(2) modes_neq)
  have conn: "connected (sock (maintain_connection quiet_env idle_state))"
    by (rule quiet_connected(1) [OF id(4)])
  note t = checker_wire_code [OF s1 p s2 q refl, where ?f3.0 = black_frame and ?env3.0 = quiet_env,
      THEN conjunct2, THEN conjunct2, THEN conjunct2, THEN conjunct2, THEN conjunct2]
  from polls checker_state_facts(2) polled_refreshed_state_facts(2) mid m3 conn
  have h: "(\<forall>c\<in>set [(quiet_env, None :: byte list option)]. snd c = None) \<and>
      lastFrameMode checker_state = FM_CHECKER \<and>
      lastFrameMode polled_refreshed_state = FM_FULL \<and>
      FM_CHECKER \<notin> set (run_modes sample_encoder (240, 320) polled_refreshed_state idle_calls) \<and>
      lastFrameMode ?s3 = FM_CHECKER \<and> connected (sock (maintain_connection quiet_env idle_state))"
    by (intro conjI)
  note r = t [THEN mp, OF h]
  note r1 = r [THEN conjunct1]
  note r2 = r [THEN conjunct2, THEN conjunct1, THEN mp, OF st(3)]
  from polls checker_state_facts(2) polled_refreshed_state_facts(2) mid m3 conn r1 r2 st(3)
  show ?thesis
    apply (intro conjI)
            apply (rule st(3))
           apply (rule checker_state_facts(2))
          apply (rule polled_refreshed_state_facts(2))
         apply (rule mid)
        apply (rule m3)
       apply (rule conn)
      apply (rule r1)
     apply (rule r2 [THEN conjunct1])
    apply (rule r2 [THEN conjunct2])
    done
qed

text \<open>
  Later in the session of \<open>refreshed_state\<close> a checker pair starts with \<open>checker = 1\<close>:
  \<open>CHECKER\<close> (sent with code 4), the forced \<open>FULL\<close>, then \<open>CHECKER\<close> again, which is sent
  with code 3 and not 4.
\<close>

theorem checker_wire_code_counterexample:
  "checker resettled_state = 1 \<and>
   lastFrameMode late_checker_state = FM_CHECKER \<and>
   forceFrameCount late_checker_state > 100 \<and>
   lastFrameMode late_refreshed_state = FM_FULL \<and>
   lastFrameMode (snd (processFrameData sample_encoder (240, 320) quiet_env (Some white_frame)
     late_refreshed_state)) = FM_CHECKER \<and>
   connected (sock (maintain_connection quiet_env late_refreshed_state)) \<and>
   wire (sock (snd (processFrameData sample_encoder (240, 320) quiet_env (Some white_frame)
     late_refreshed_state))) =
     wire (sock late_refreshed_state) @ [3, 0] @
     le16 (word_of_nat (length (sample_encoder (checker_sample white_frame 240 320 0) (240 div 2) 320 70))) @
     take (unat (word_of_nat (length (sample_encoder (checker_sample white_frame 240 320 0) (240 div 2) 320 70)) :: 16 word))
       (sample_encoder (checker_sample white_frame 240 320 0) (240 div 2) 320 70) \<and>
   take 2 (drop (length (wire (sock late_refreshed_state)))
     (wire (sock (snd (processFrameData sample_encoder (240, 320) quiet_env (Some white_frame)
       late_refreshed_state))))) \<noteq> [4, 0]"
proof -
  let ?s3 = "snd (processFrameData sample_encoder (240, 320) quiet_env (Some white_frame) late_refreshed_state)"
  note rs = session_atD [OF resettled_state_facts(1)]
  note lc = session_atD [OF late_checker_state_facts(1)]
  note rf = session_atD [OF late_refreshed_state_facts(1)]
  have m3: "lastFrameMode ?s3 = FM_CHECKER"
    by (rule step_black_white(1) [OF late_refreshed_state_facts(1) _ _ refl])
      (simp_all add: late_refreshed_state_facts(2) modes_neq)
  have conn: "connected (sock (maintain_connection quiet_env late_refreshed_state))"
    by (rule quiet_connected(1) [OF rf(4)])
  have w: "wire (sock ?s3) =
     wire (sock late_refreshed_state) @ [3, 0] @
     le16 (word_of_nat (length (sample_encoder (checker_sample white_frame 240 320 0) (240 div 2) 320 70))) @
     take (unat (word_of_nat (length (sample_encoder (checker_sample white_frame 240 320 0) (240 div 2) 320 70)) :: 16 word))
       (sample_encoder (checker_sample white_frame 240 320 0) (240 div 2) 320 70)"
    using pfd_checker_wire [OF refl _ conn, where jpeg = sample_encoder and w = 240 and h = 320
        and fd = white_frame] m3
    by (simp add: rf(3) le16_small)
  have n: "take 2 (drop (length (wire (sock late_refreshed_state))) (wire (sock ?s3))) \<noteq> [4, 0]"
    unfolding w by simp
  have f: "forceFrameCount late_checker_state > 100" by (simp add: lc(2))
  from rs(3) late_checker_state_facts(2) f late_refreshed_state_facts(2) m3 conn w n
  show ?thesis by blast
qed

theorem lastImage_mutation_witness:
  "lastImage checker_state = Some white_frame \<and> forceFrameCount checker_state > 100 \<and>
   lastFrameMode (snd (processFrameData sample_encoder (240, 320) quiet_env (Some black_frame)
     checker_state)) = FM_FULL \<and>
   lastImage (snd (processFrameData sample_encoder (240, 320) quiet_env (Some black_frame)
     checker_state)) = Some white_frame \<and>
   lastImage (snd (processFrameData sample_encoder (240, 320) quiet_env (Some black_frame)
     (snd (processFrameData sample_encoder (240, 320) quiet_env (Some black_frame)
       checker_state)))) = Some black_frame \<and>
   lastImage (snd (processFrameData sample_encoder (240, 320) quiet_env None checker_state)) =
     Some white_frame \<and>
   lastImage initial_state = None \<and> lastImage first_state = Some black_frame"
proof -
  note ck = session_atD [OF checker_state_facts(1)]
  have none: "lastImage initial_state = None" by (simp add: initial_state_def)
  note t = lastImage_mutation [OF refl refl, where s = checker_state and jpeg = sample_encoder
      and w = 240 and h = 320 and env = quiet_env and fd = black_frame
      and ?env2.0 = quiet_env and ?fd2.0 = black_frame and prev = white_frame]
  from imageDiff_black_white(2) [OF ck(5) ck(7)]
  obtain D' M' where d: "imageDiff white_frame (diffBuf checker_state) (diffMap checker_state)
      black_frame 240 320 = (1200, black_frame, D', M')" by auto
  have a: "lastImage (snd (processFrameData sample_encoder (240, 320) quiet_env None checker_state)) =
      Some white_frame"
    using t [THEN conjunct1] ck(1) by simp
  have b: "lastFrameMode (snd (processFrameData sample_encoder (240, 320) quiet_env (Some black_frame)
      checker_state)) = FM_FULL \<and>
    lastImage (snd (processFrameData sample_encoder (240, 320) quiet_env (Some black_frame)
      checker_state)) = Some white_frame \<and>
    lastImage (snd (processFrameData sample_encoder (240, 320) quiet_env (Some black_frame)
      (snd (processFrameData sample_encoder (240, 320) quiet_env (Some black_frame)
        checker_state)))) = Some black_frame"
    using t [THEN conjunct2, THEN conjunct2] ck(1,2) d by simp
  note t0 = lastImage_mutation [OF refl refl, where s = initial_state and jpeg = sample_encoder
      and w = 240 and h = 320 and env = quiet_env and fd = black_frame
      and ?env2.0 = quiet_env and ?fd2.0 = black_frame and prev = white_frame]
  have c: "lastImage first_state = Some black_frame"
    using t0 [THEN conjunct2, THEN conjunct1] none
    by (simp add: first_state_def ctroll_layout_def black_frame_def)
  from ck(1,2) a b none c show ?thesis by simp
qed

end
